theory Spec2Isabelle
  imports Complex_Main
begin

section \<open>Characters, exceptions and the numeric primitives\<close>

text \<open>
  The evaluator classifies characters with \<^verbatim>\<open>std::isspace\<close>, \<^verbatim>\<open>std::isdigit\<close>,
  \<^verbatim>\<open>std::isalpha\<close> and \<^verbatim>\<open>std::isalnum\<close>. They are modelled in the "C" locale on
  the byte value of the character.
\<close>

definition isdigit :: "char \<Rightarrow> bool" where
  "isdigit c = (let n = (of_char c :: nat) in 48 \<le> n \<and> n \<le> 57)"

definition isalpha :: "char \<Rightarrow> bool" where
  "isalpha c = (let n = (of_char c :: nat) in (65 \<le> n \<and> n \<le> 90) \<or> (97 \<le> n \<and> n \<le> 122))"

definition isalnum :: "char \<Rightarrow> bool" where
  "isalnum c = (isalpha c \<or> isdigit c)"

definition isspace :: "char \<Rightarrow> bool" where
  "isspace c = (let n = (of_char c :: nat) in n = 32 \<or> (9 \<le> n \<and> n \<le> 13))"

text \<open>
  The two exception classes the code throws, each with its message. An outcome is either
  an exception or a value; every parsing function returns its outcome together with the
  cursor \<^verbatim>\<open>m_pos\<close> it leaves behind, also when it throws.
\<close>

datatype exn = runtime_error string | domain_error string

type_synonym 'a res = "(exn + 'a) \<times> nat"

text \<open>
  The code computes on \<^verbatim>\<open>double\<close> and calls the C++ standard library. Those primitives
  are not code of this repository; they are a parameter of the model, a record over an
  arbitrary carrier \<open>'v\<close> of double values:
  \<^item> \<open>dlit\<close>: the double denoted by a decimal literal of the program text;
  \<^item> \<open>stod\<close>: \<^verbatim>\<open>std::stod\<close>, \<open>None\<close> where it throws;
  \<^item> \<open>dadd\<close>, \<open>dsub\<close>, \<open>dmul\<close>, \<open>ddiv\<close>, \<open>dneg\<close>: the built-in operators;
  \<^item> \<open>deq\<close>, \<open>dlt\<close>: the comparisons \<^verbatim>\<open>==\<close> and \<^verbatim>\<open><\<close>;
  \<^item> \<open>std_fmod\<close>, \<open>std_pow\<close>: \<^verbatim>\<open>std::fmod\<close> and \<^verbatim>\<open>std::pow\<close>;
  \<^item> \<open>std_fn\<close>: the unary functions of \<^verbatim>\<open><cmath>\<close>, by name.
\<close>

datatype cmath = F_sin | F_cos | F_tan | F_asin | F_acos | F_atan
  | F_sinh | F_cosh | F_tanh | F_sqrt | F_cbrt | F_fabs
  | F_exp | F_log | F_log10 | F_log2 | F_floor | F_ceil | F_round

record 'v math =
  dlit :: "rat \<Rightarrow> 'v"
  stod :: "string \<Rightarrow> 'v option"
  dadd :: "'v \<Rightarrow> 'v \<Rightarrow> 'v"
  dsub :: "'v \<Rightarrow> 'v \<Rightarrow> 'v"
  dmul :: "'v \<Rightarrow> 'v \<Rightarrow> 'v"
  ddiv :: "'v \<Rightarrow> 'v \<Rightarrow> 'v"
  dneg :: "'v \<Rightarrow> 'v"
  deq :: "'v \<Rightarrow> 'v \<Rightarrow> bool"
  dlt :: "'v \<Rightarrow> 'v \<Rightarrow> bool"
  std_fmod :: "'v \<Rightarrow> 'v \<Rightarrow> 'v"
  std_pow :: "'v \<Rightarrow> 'v \<Rightarrow> 'v"
  std_fn :: "cmath \<Rightarrow> 'v \<Rightarrow> 'v"

text \<open>\<^verbatim>\<open>a <= b\<close> and \<^verbatim>\<open>a > b\<close> on doubles, from \<^verbatim>\<open><\<close> and \<^verbatim>\<open>==\<close>.\<close>

definition dle :: "'v math \<Rightarrow> 'v \<Rightarrow> 'v \<Rightarrow> bool" where
  "dle m a b = (dlt m a b \<or> deq m a b)"

definition dgt :: "'v math \<Rightarrow> 'v \<Rightarrow> 'v \<Rightarrow> bool" where
  "dgt m a b = dlt m b a"

section \<open>StandardCalculator\<close>

definition sc_add :: "'v math \<Rightarrow> 'v \<Rightarrow> 'v \<Rightarrow> 'v" where
  "sc_add m a b = dadd m a b"

definition sc_subtract :: "'v math \<Rightarrow> 'v \<Rightarrow> 'v \<Rightarrow> 'v" where
  "sc_subtract m a b = dsub m a b"

definition sc_multiply :: "'v math \<Rightarrow> 'v \<Rightarrow> 'v \<Rightarrow> 'v" where
  "sc_multiply m a b = dmul m a b"

definition sc_divide :: "'v math \<Rightarrow> 'v \<Rightarrow> 'v \<Rightarrow> exn + 'v" where
  "sc_divide m a b =
     (if deq m b (dlit m 0) then Inl (domain_error ''Division by zero'')
      else Inr (ddiv m a b))"

definition sc_modulo :: "'v math \<Rightarrow> 'v \<Rightarrow> 'v \<Rightarrow> exn + 'v" where
  "sc_modulo m a b =
     (if deq m b (dlit m 0) then Inl (domain_error ''Modulo by zero'')
      else Inr (std_fmod m a b))"

definition sc_power :: "'v math \<Rightarrow> 'v \<Rightarrow> 'v \<Rightarrow> 'v" where
  "sc_power m base exponent = std_pow m base exponent"

definition sc_sqrt :: "'v math \<Rightarrow> 'v \<Rightarrow> exn + 'v" where
  "sc_sqrt m x =
     (if dlt m x (dlit m 0) then Inl (domain_error ''Square root of negative number'')
      else Inr (std_fn m F_sqrt x))"

definition sc_cbrt :: "'v math \<Rightarrow> 'v \<Rightarrow> exn + 'v" where
  "sc_cbrt m x = Inr (std_fn m F_cbrt x)"

definition sc_exp :: "'v math \<Rightarrow> 'v \<Rightarrow> exn + 'v" where
  "sc_exp m x = Inr (std_fn m F_exp x)"

definition sc_log :: "'v math \<Rightarrow> 'v \<Rightarrow> exn + 'v" where
  "sc_log m x =
     (if dle m x (dlit m 0) then Inl (domain_error ''Logarithm of non-positive number'')
      else Inr (std_fn m F_log x))"

definition sc_log10 :: "'v math \<Rightarrow> 'v \<Rightarrow> exn + 'v" where
  "sc_log10 m x =
     (if dle m x (dlit m 0) then Inl (domain_error ''Logarithm of non-positive number'')
      else Inr (std_fn m F_log10 x))"

definition sc_log2 :: "'v math \<Rightarrow> 'v \<Rightarrow> exn + 'v" where
  "sc_log2 m x =
     (if dle m x (dlit m 0) then Inl (domain_error ''Logarithm of non-positive number'')
      else Inr (std_fn m F_log2 x))"

definition sc_sin :: "'v math \<Rightarrow> 'v \<Rightarrow> exn + 'v" where
  "sc_sin m x = Inr (std_fn m F_sin x)"

definition sc_cos :: "'v math \<Rightarrow> 'v \<Rightarrow> exn + 'v" where
  "sc_cos m x = Inr (std_fn m F_cos x)"

definition sc_tan :: "'v math \<Rightarrow> 'v \<Rightarrow> exn + 'v" where
  "sc_tan m x = Inr (std_fn m F_tan x)"

definition sc_asin :: "'v math \<Rightarrow> 'v \<Rightarrow> exn + 'v" where
  "sc_asin m x =
     (if dlt m x (dlit m (- 1)) \<or> dgt m x (dlit m 1)
      then Inl (domain_error ''asin domain error: x must be in [-1, 1]'')
      else Inr (std_fn m F_asin x))"

definition sc_acos :: "'v math \<Rightarrow> 'v \<Rightarrow> exn + 'v" where
  "sc_acos m x =
     (if dlt m x (dlit m (- 1)) \<or> dgt m x (dlit m 1)
      then Inl (domain_error ''acos domain error: x must be in [-1, 1]'')
      else Inr (std_fn m F_acos x))"

definition sc_atan :: "'v math \<Rightarrow> 'v \<Rightarrow> exn + 'v" where
  "sc_atan m x = Inr (std_fn m F_atan x)"

definition sc_sinh :: "'v math \<Rightarrow> 'v \<Rightarrow> exn + 'v" where
  "sc_sinh m x = Inr (std_fn m F_sinh x)"

definition sc_cosh :: "'v math \<Rightarrow> 'v \<Rightarrow> exn + 'v" where
  "sc_cosh m x = Inr (std_fn m F_cosh x)"

definition sc_tanh :: "'v math \<Rightarrow> 'v \<Rightarrow> exn + 'v" where
  "sc_tanh m x = Inr (std_fn m F_tanh x)"

definition sc_abs :: "'v math \<Rightarrow> 'v \<Rightarrow> exn + 'v" where
  "sc_abs m x = Inr (std_fn m F_fabs x)"

definition sc_floor :: "'v math \<Rightarrow> 'v \<Rightarrow> exn + 'v" where
  "sc_floor m x = Inr (std_fn m F_floor x)"

definition sc_ceil :: "'v math \<Rightarrow> 'v \<Rightarrow> exn + 'v" where
  "sc_ceil m x = Inr (std_fn m F_ceil x)"

definition sc_round :: "'v math \<Rightarrow> 'v \<Rightarrow> exn + 'v" where
  "sc_round m x = Inr (std_fn m F_round x)"

definition PI :: "'v math \<Rightarrow> 'v" where
  "PI m = dlit m (314159265358979323846 / 100000000000000000000)"

definition E :: "'v math \<Rightarrow> 'v" where
  "E m = dlit m (271828182845904523536 / 100000000000000000000)"

definition GOLDEN_RATIO :: "'v math \<Rightarrow> 'v" where
  "GOLDEN_RATIO m = dlit m (161803398874989484820 / 100000000000000000000)"

section \<open>ExpressionParser: state and registry\<close>

record 'v ExpressionParser =
  m_input :: string
  m_pos :: nat
  m_functions :: "string \<rightharpoonup> ('v \<Rightarrow> exn + 'v)"
  m_constants :: "string \<rightharpoonup> 'v"

definition register_function ::
  "string \<Rightarrow> ('v \<Rightarrow> exn + 'v) \<Rightarrow> 'v ExpressionParser \<Rightarrow> 'v ExpressionParser" where
  "register_function name func P = P\<lparr>m_functions := (m_functions P)(name \<mapsto> func)\<rparr>"

definition register_constant ::
  "string \<Rightarrow> 'v \<Rightarrow> 'v ExpressionParser \<Rightarrow> 'v ExpressionParser" where
  "register_constant name val P = P\<lparr>m_constants := (m_constants P)(name \<mapsto> val)\<rparr>"

text \<open>
  The constructor: the registrations, in the order of the source, on empty maps. The
  constructor leaves \<^verbatim>\<open>m_pos\<close> uninitialised; \<open>evaluate\<close> assigns it before any use, and the
  model starts it at 0.
\<close>

definition new_ExpressionParser :: "'v math \<Rightarrow> 'v ExpressionParser" where
  "new_ExpressionParser m =
     (register_constant ''phi'' (GOLDEN_RATIO m)
     (register_constant ''e'' (E m)
     (register_constant ''pi'' (PI m)
     (register_function ''round'' (sc_round m)
     (register_function ''ceil'' (sc_ceil m)
     (register_function ''floor'' (sc_floor m)
     (register_function ''log2'' (sc_log2 m)
     (register_function ''log'' (sc_log10 m)
     (register_function ''ln'' (sc_log m)
     (register_function ''exp'' (sc_exp m)
     (register_function ''abs'' (sc_abs m)
     (register_function ''cbrt'' (sc_cbrt m)
     (register_function ''sqrt'' (sc_sqrt m)
     (register_function ''tanh'' (sc_tanh m)
     (register_function ''cosh'' (sc_cosh m)
     (register_function ''sinh'' (sc_sinh m)
     (register_function ''atan'' (sc_atan m)
     (register_function ''acos'' (sc_acos m)
     (register_function ''asin'' (sc_asin m)
     (register_function ''tan'' (sc_tan m)
     (register_function ''cos'' (sc_cos m)
     (register_function ''sin'' (sc_sin m)
       \<lparr>m_input = [], m_pos = 0, m_functions = Map.empty, m_constants = Map.empty\<rparr>
     ))))))))))))))))))))))"

section \<open>Scanning loops\<close>

function skip_whitespace :: "string \<Rightarrow> nat \<Rightarrow> nat" where
  "skip_whitespace s pos =
     (if pos < length s \<and> isspace (s ! pos) then skip_whitespace s (pos + 1) else pos)"
  by pat_completeness auto
termination
  by (relation "measure (\<lambda>(s, pos). length s - pos)") auto

text \<open>The identifier loop of \<open>parse_factor\<close>: appends to \<open>name\<close> while advancing.\<close>

function scan_identifier :: "string \<Rightarrow> nat \<Rightarrow> string \<Rightarrow> string \<times> nat" where
  "scan_identifier s pos name =
     (if pos < length s \<and> (isalnum (s ! pos) \<or> s ! pos = CHR ''_'')
      then scan_identifier s (pos + 1) (name @ [s ! pos])
      else (name, pos))"
  by pat_completeness auto
termination
  by (relation "measure (\<lambda>(s, pos, name). length s - pos)") auto

text \<open>The first loop of \<open>parse_number\<close>: digits and at most one decimal point.\<close>

function scan_mantissa :: "string \<Rightarrow> nat \<Rightarrow> bool \<Rightarrow> unit res" where
  "scan_mantissa s pos has_dot =
     (if pos < length s \<and> (isdigit (s ! pos) \<or> s ! pos = CHR ''.'') then
        (if s ! pos = CHR ''.'' then
           (if has_dot then (Inl (runtime_error ''Invalid number format''), pos)
            else scan_mantissa s (pos + 1) True)
         else scan_mantissa s (pos + 1) has_dot)
      else (Inr (), pos))"
  by pat_completeness auto
termination
  by (relation "measure (\<lambda>(s, pos, has_dot). length s - pos)") auto

text \<open>The second loop of \<open>parse_number\<close>: the digits of the exponent.\<close>

function scan_digits :: "string \<Rightarrow> nat \<Rightarrow> nat" where
  "scan_digits s pos =
     (if pos < length s \<and> isdigit (s ! pos) then scan_digits s (pos + 1) else pos)"
  by pat_completeness auto
termination
  by (relation "measure (\<lambda>(s, pos). length s - pos)") auto

text \<open>\<^verbatim>\<open>std::string::substr(start, n)\<close>, for \<open>start \<le> length s\<close>.\<close>

definition substr :: "string \<Rightarrow> nat \<Rightarrow> nat \<Rightarrow> string" where
  "substr s start n = take n (drop start s)"

definition parse_number :: "'v math \<Rightarrow> string \<Rightarrow> nat \<Rightarrow> 'v res" where
  "parse_number m s pos =
     (let p0 = skip_whitespace s pos in
      if p0 \<ge> length s then (Inl (runtime_error ''Expected number''), p0)
      else
        let start = p0 in
        case scan_mantissa s p0 False of
          (Inl e, p1) \<Rightarrow> (Inl e, p1)
        | (Inr _, p1) \<Rightarrow>
            (let p2 =
              (if p1 < length s \<and> (s ! p1 = CHR ''e'' \<or> s ! p1 = CHR ''E'') then
                 let q1 = p1 + 1;
                     q2 = (if q1 < length s \<and> (s ! q1 = CHR ''+'' \<or> s ! q1 = CHR ''-'')
                           then q1 + 1 else q1)
                 in scan_digits s q2
               else p1)
            in
            if start = p2 then (Inl (runtime_error ''Expected number''), p2)
            else
              (let num_str = substr s start (p2 - start) in
               case stod m num_str of
                 None \<Rightarrow> (Inl (runtime_error (''Invalid number: '' @ num_str)), p2)
               | Some v \<Rightarrow> (Inr v, p2))))"

section \<open>The recursive descent\<close>

text \<open>
  The three productions call each other, and each loop continues from where the callee
  left the cursor. They are defined by recursion on a bound \<open>n\<close> on the depth of calls;
  \<open>None\<close> means that the bound was reached. The bound that \<open>evaluate\<close> passes is proved
  sufficient below, so that \<open>None\<close> never comes out of \<open>evaluate\<close>.
  The loops of \<open>parse_expression\<close> and \<open>parse_term\<close> are the functions \<open>expression_loop\<close>
  and \<open>term_loop\<close>, with the local \<open>result\<close> as an argument.
\<close>

function (sequential) parse_expression ::
    "'v math \<Rightarrow> (string \<rightharpoonup> ('v \<Rightarrow> exn + 'v)) \<Rightarrow> (string \<rightharpoonup> 'v) \<Rightarrow> string \<Rightarrow> nat \<Rightarrow> nat \<Rightarrow> 'v res option"
  and expression_loop ::
    "'v math \<Rightarrow> (string \<rightharpoonup> ('v \<Rightarrow> exn + 'v)) \<Rightarrow> (string \<rightharpoonup> 'v) \<Rightarrow> string \<Rightarrow> nat \<Rightarrow> 'v \<Rightarrow> nat \<Rightarrow> 'v res option"
  and parse_term ::
    "'v math \<Rightarrow> (string \<rightharpoonup> ('v \<Rightarrow> exn + 'v)) \<Rightarrow> (string \<rightharpoonup> 'v) \<Rightarrow> string \<Rightarrow> nat \<Rightarrow> nat \<Rightarrow> 'v res option"
  and term_loop ::
    "'v math \<Rightarrow> (string \<rightharpoonup> ('v \<Rightarrow> exn + 'v)) \<Rightarrow> (string \<rightharpoonup> 'v) \<Rightarrow> string \<Rightarrow> nat \<Rightarrow> 'v \<Rightarrow> nat \<Rightarrow> 'v res option"
  and parse_factor ::
    "'v math \<Rightarrow> (string \<rightharpoonup> ('v \<Rightarrow> exn + 'v)) \<Rightarrow> (string \<rightharpoonup> 'v) \<Rightarrow> string \<Rightarrow> nat \<Rightarrow> nat \<Rightarrow> 'v res option"
where
  "parse_expression m fs cs s 0 pos = None"
| "parse_expression m fs cs s (Suc n) pos =
     (case parse_term m fs cs s n pos of
        None \<Rightarrow> None
      | Some (Inl e, p1) \<Rightarrow> Some (Inl e, p1)
      | Some (Inr result, p1) \<Rightarrow> expression_loop m fs cs s n result p1)"
| "expression_loop m fs cs s 0 result pos = None"
| "expression_loop m fs cs s (Suc n) result pos =
     (if pos < length s then
        let p1 = skip_whitespace s pos in
        if p1 \<ge> length s then Some (Inr result, p1)
        else
          let op = s ! p1 in
          if op = CHR ''+'' \<or> op = CHR ''-'' then
            (case parse_term m fs cs s n (p1 + 1) of
               None \<Rightarrow> None
             | Some (Inl e, p2) \<Rightarrow> Some (Inl e, p2)
             | Some (Inr right, p2) \<Rightarrow>
                 expression_loop m fs cs s n
                   (if op = CHR ''+'' then sc_add m result right
                    else sc_subtract m result right) p2)
          else Some (Inr result, p1)
      else Some (Inr result, pos))"
| "parse_term m fs cs s 0 pos = None"
| "parse_term m fs cs s (Suc n) pos =
     (case parse_factor m fs cs s n pos of
        None \<Rightarrow> None
      | Some (Inl e, p1) \<Rightarrow> Some (Inl e, p1)
      | Some (Inr result, p1) \<Rightarrow> term_loop m fs cs s n result p1)"
| "term_loop m fs cs s 0 result pos = None"
| "term_loop m fs cs s (Suc n) result pos =
     (if pos < length s then
        let p1 = skip_whitespace s pos in
        if p1 \<ge> length s then Some (Inr result, p1)
        else
          let op = s ! p1 in
          if op = CHR ''*'' \<or> op = CHR ''/'' \<or> op = CHR ''%'' then
            (case parse_factor m fs cs s n (p1 + 1) of
               None \<Rightarrow> None
             | Some (Inl e, p2) \<Rightarrow> Some (Inl e, p2)
             | Some (Inr right, p2) \<Rightarrow>
                 (if op = CHR ''*'' then
                    term_loop m fs cs s n (sc_multiply m result right) p2
                  else if op = CHR ''/'' then
                    (case sc_divide m result right of
                       Inl e \<Rightarrow> Some (Inl e, p2)
                     | Inr v \<Rightarrow> term_loop m fs cs s n v p2)
                  else
                    (case sc_modulo m result right of
                       Inl e \<Rightarrow> Some (Inl e, p2)
                     | Inr v \<Rightarrow> term_loop m fs cs s n v p2)))
          else Some (Inr result, p1)
      else Some (Inr result, pos))"
| "parse_factor m fs cs s 0 pos = None"
| "parse_factor m fs cs s (Suc n) pos =
     (let p0 = skip_whitespace s pos in
      if p0 \<ge> length s then Some (Inl (runtime_error ''Unexpected end of expression''), p0)
      else if s ! p0 = CHR ''-'' \<or> s ! p0 = CHR ''+'' then
        (let op = s ! p0 in
         case parse_factor m fs cs s n (p0 + 1) of
           None \<Rightarrow> None
         | Some (Inl e, p1) \<Rightarrow> Some (Inl e, p1)
         | Some (Inr val, p1) \<Rightarrow> Some (Inr (if op = CHR ''-'' then dneg m val else val), p1))
      else if s ! p0 = CHR ''('' then
        (case parse_expression m fs cs s n (p0 + 1) of
           None \<Rightarrow> None
         | Some (Inl e, p1) \<Rightarrow> Some (Inl e, p1)
         | Some (Inr result, p1) \<Rightarrow>
             let p2 = skip_whitespace s p1 in
             if p2 \<ge> length s \<or> s ! p2 \<noteq> CHR '')'' then
               Some (Inl (runtime_error ''Mismatched parentheses''), p2)
             else
               let p3 = skip_whitespace s (p2 + 1) in
               if p3 < length s \<and> s ! p3 = CHR ''^'' then
                 (case parse_factor m fs cs s n (p3 + 1) of
                    None \<Rightarrow> None
                  | Some (Inl e, p4) \<Rightarrow> Some (Inl e, p4)
                  | Some (Inr exponent, p4) \<Rightarrow> Some (Inr (sc_power m result exponent), p4))
               else Some (Inr result, p3))
      else if isalpha (s ! p0) then
        (let (name, p1) = scan_identifier s p0 [];
             p2 = skip_whitespace s p1 in
         if p2 < length s \<and> s ! p2 = CHR ''('' then
           (case parse_expression m fs cs s n (p2 + 1) of
              None \<Rightarrow> None
            | Some (Inl e, p3) \<Rightarrow> Some (Inl e, p3)
            | Some (Inr arg, p3) \<Rightarrow>
                let p4 = skip_whitespace s p3 in
                if p4 \<ge> length s \<or> s ! p4 \<noteq> CHR '')'' then
                  Some (Inl (runtime_error ''Mismatched parentheses in function call''), p4)
                else
                  (case fs name of
                     None \<Rightarrow> Some (Inl (runtime_error (''Unknown function: '' @ name)), p4 + 1)
                   | Some f \<Rightarrow> Some (f arg, p4 + 1)))
         else
           (case cs name of
              Some c \<Rightarrow> Some (Inr c, p2)
            | None \<Rightarrow> Some (Inl (runtime_error (''Unknown identifier: '' @ name)), p2)))
      else
        (case parse_number m s p0 of
           (Inl e, p1) \<Rightarrow> Some (Inl e, p1)
         | (Inr result, p1) \<Rightarrow>
             let p2 = skip_whitespace s p1 in
             if p2 < length s \<and> s ! p2 = CHR ''^'' then
               (case parse_factor m fs cs s n (p2 + 1) of
                  None \<Rightarrow> None
                | Some (Inl e, p3) \<Rightarrow> Some (Inl e, p3)
                | Some (Inr exponent, p3) \<Rightarrow> Some (Inr (sc_power m result exponent), p3))
             else Some (Inr result, p2)))"

  by pat_completeness auto
termination
  by (relation "measure (\<lambda>x. case x of
        Inl (Inl (m, fs, cs, s, n, pos)) \<Rightarrow> n
      | Inl (Inr (m, fs, cs, s, n, r, pos)) \<Rightarrow> n
      | Inr (Inl (m, fs, cs, s, n, pos)) \<Rightarrow> n
      | Inr (Inr (Inl (m, fs, cs, s, n, r, pos))) \<Rightarrow> n
      | Inr (Inr (Inr (m, fs, cs, s, n, pos))) \<Rightarrow> n)") simp_all

text \<open>The depth bound that suffices for an input with \<open>r\<close> characters left.\<close>

definition depth_bound :: "nat \<Rightarrow> nat" where
  "depth_bound r = 3 * r + 4"

text \<open>
  \<open>evaluate\<close> assigns \<^verbatim>\<open>m_input\<close> and \<^verbatim>\<open>m_pos\<close> and returns what \<open>parse_expression\<close> returns:
  the outcome, and the parser object with the cursor where parsing stopped.
\<close>

definition evaluate ::
  "'v math \<Rightarrow> 'v ExpressionParser \<Rightarrow> string \<Rightarrow> ((exn + 'v) \<times> 'v ExpressionParser) option" where
  "evaluate m P expression =
     (let P1 = P\<lparr>m_input := expression, m_pos := 0\<rparr> in
      case parse_expression m (m_functions P1) (m_constants P1) (m_input P1)
             (depth_bound (length (m_input P1))) (m_pos P1) of
        None \<Rightarrow> None
      | Some (out, p) \<Rightarrow> Some (out, P1\<lparr>m_pos := p\<rparr>))"

section \<open>An exact interpretation of the numeric primitives\<close>

text \<open>
  The primitives read over the real numbers, without rounding, infinities or NaN. It is
  the interpretation in which the numeric examples are computed; every statement that
  does not mention it holds for any interpretation of the primitives.
  \<open>stod_exact\<close> reads the decimal forms the scanner can produce the way \<^verbatim>\<open>std::stod\<close> does:
  the longest prefix that is a number, and failure when there is no digit in the mantissa.
\<close>

definition digit_value :: "char \<Rightarrow> nat" where
  "digit_value c = of_char c - 48"

definition digits_value :: "string \<Rightarrow> nat" where
  "digits_value ds = foldl (\<lambda>a c. 10 * a + digit_value c) 0 ds"

definition stod_exact :: "string \<Rightarrow> real option" where
  "stod_exact s =
     (let ip = takeWhile isdigit s;
          r1 = dropWhile isdigit s;
          has_point = (r1 \<noteq> [] \<and> hd r1 = CHR ''.'');
          fp = (if has_point then takeWhile isdigit (tl r1) else []);
          r2 = (if has_point then dropWhile isdigit (tl r1) else r1)
      in
      if ip = [] \<and> fp = [] then None
      else
        let mant = real (digits_value ip) + real (digits_value fp) / 10 ^ length fp;
            has_exp = (r2 \<noteq> [] \<and> (hd r2 = CHR ''e'' \<or> hd r2 = CHR ''E''));
            r3 = tl r2;
            neg = (r3 \<noteq> [] \<and> hd r3 = CHR ''-'');
            r4 = (if r3 \<noteq> [] \<and> (hd r3 = CHR ''+'' \<or> hd r3 = CHR ''-'') then tl r3 else r3);
            ed = takeWhile isdigit r4
        in
        Some (if has_exp \<and> ed \<noteq> [] then
                (if neg then mant / 10 ^ digits_value ed else mant * 10 ^ digits_value ed)
              else mant))"

definition fmod_exact :: "real \<Rightarrow> real \<Rightarrow> real" where
  "fmod_exact a b = a - b * of_int (if 0 \<le> a / b then \<lfloor>a / b\<rfloor> else \<lceil>a / b\<rceil>)"

definition pow_exact :: "real \<Rightarrow> real \<Rightarrow> real" where
  "pow_exact b e =
     (if e = of_int \<lfloor>e\<rfloor> then
        (if 0 \<le> e then b ^ nat \<lfloor>e\<rfloor> else inverse (b ^ nat \<lfloor>- e\<rfloor>))
      else b powr e)"

definition fn_exact :: "cmath \<Rightarrow> real \<Rightarrow> real" where
  "fn_exact f x =
     (case f of
        F_sin \<Rightarrow> sin x | F_cos \<Rightarrow> cos x | F_tan \<Rightarrow> tan x
      | F_asin \<Rightarrow> arcsin x | F_acos \<Rightarrow> arccos x | F_atan \<Rightarrow> arctan x
      | F_sinh \<Rightarrow> sinh x | F_cosh \<Rightarrow> cosh x | F_tanh \<Rightarrow> tanh x
      | F_sqrt \<Rightarrow> sqrt x | F_cbrt \<Rightarrow> root 3 x | F_fabs \<Rightarrow> \<bar>x\<bar>
      | F_exp \<Rightarrow> exp x | F_log \<Rightarrow> ln x | F_log10 \<Rightarrow> log 10 x | F_log2 \<Rightarrow> log 2 x
      | F_floor \<Rightarrow> of_int \<lfloor>x\<rfloor> | F_ceil \<Rightarrow> of_int \<lceil>x\<rceil>
      | F_round \<Rightarrow> (if 0 \<le> x then of_int \<lfloor>x + 1 / 2\<rfloor> else of_int \<lceil>x - 1 / 2\<rceil>))"

definition exact_math :: "real math" where
  "exact_math =
     \<lparr>dlit = of_rat, stod = stod_exact,
      dadd = (+), dsub = (-), dmul = (*), ddiv = (/), dneg = uminus,
      deq = (=), dlt = (<),
      std_fmod = fmod_exact, std_pow = pow_exact, std_fn = fn_exact\<rparr>"

section \<open>Auxiliary notions for the proofs\<close>

text \<open>
  \<open>exp_end\<close> names the exponent part of \<open>parse_number\<close>: where the cursor stands after the
  optional exponent, starting from the end \<open>p1\<close> of the mantissa.
\<close>

definition exp_end :: "string \<Rightarrow> nat \<Rightarrow> nat" where
  "exp_end s p1 =
     (if p1 < length s \<and> (s ! p1 = CHR ''e'' \<or> s ! p1 = CHR ''E'') then
        let q1 = p1 + 1;
            q2 = (if q1 < length s \<and> (s ! q1 = CHR ''+'' \<or> s ! q1 = CHR ''-'')
                  then q1 + 1 else q1)
        in scan_digits s q2
      else p1)"

text \<open>
  \<open>cursor_ok s pos r\<close>: a call that started with the cursor at \<open>pos\<close> and returned \<open>r\<close> left
  the cursor at or after \<open>pos\<close>, and inside the input if \<open>pos\<close> was.
  \<open>suff s b pos r\<close> adds that the call did return when the budget \<open>b\<close> covers three levels
  of calls for each character left.
\<close>

definition cursor_ok :: "string \<Rightarrow> nat \<Rightarrow> 'a res option \<Rightarrow> bool" where
  "cursor_ok s pos r =
     (case r of None \<Rightarrow> True | Some (out, p) \<Rightarrow> pos \<le> p \<and> p \<le> max pos (length s))"

definition suff :: "string \<Rightarrow> int \<Rightarrow> nat \<Rightarrow> 'a res option \<Rightarrow> bool" where
  "suff s b pos r \<longleftrightarrow> cursor_ok s pos r \<and> (3 * int (length s - pos) \<le> b \<longrightarrow> r \<noteq> None)"

text \<open>
  The productions at the depth bound of \<open>evaluate\<close>. They satisfy the recursion equations
  of the source without a bound (\<open>run_factor_eq\<close> and its siblings below).
\<close>

definition run_expression ::
  "'v math \<Rightarrow> (string \<rightharpoonup> ('v \<Rightarrow> exn + 'v)) \<Rightarrow> (string \<rightharpoonup> 'v) \<Rightarrow> string \<Rightarrow> nat \<Rightarrow> 'v res option" where
  "run_expression m fs cs s pos = parse_expression m fs cs s (depth_bound (length s)) pos"

definition run_expression_loop ::
  "'v math \<Rightarrow> (string \<rightharpoonup> ('v \<Rightarrow> exn + 'v)) \<Rightarrow> (string \<rightharpoonup> 'v) \<Rightarrow> string \<Rightarrow> 'v \<Rightarrow> nat \<Rightarrow> 'v res option" where
  "run_expression_loop m fs cs s r pos = expression_loop m fs cs s (depth_bound (length s)) r pos"

definition run_term ::
  "'v math \<Rightarrow> (string \<rightharpoonup> ('v \<Rightarrow> exn + 'v)) \<Rightarrow> (string \<rightharpoonup> 'v) \<Rightarrow> string \<Rightarrow> nat \<Rightarrow> 'v res option" where
  "run_term m fs cs s pos = parse_term m fs cs s (depth_bound (length s)) pos"

definition run_term_loop ::
  "'v math \<Rightarrow> (string \<rightharpoonup> ('v \<Rightarrow> exn + 'v)) \<Rightarrow> (string \<rightharpoonup> 'v) \<Rightarrow> string \<Rightarrow> 'v \<Rightarrow> nat \<Rightarrow> 'v res option" where
  "run_term_loop m fs cs s r pos = term_loop m fs cs s (depth_bound (length s)) r pos"

definition run_factor ::
  "'v math \<Rightarrow> (string \<rightharpoonup> ('v \<Rightarrow> exn + 'v)) \<Rightarrow> (string \<rightharpoonup> 'v) \<Rightarrow> string \<Rightarrow> nat \<Rightarrow> 'v res option" where
  "run_factor m fs cs s pos = parse_factor m fs cs s (depth_bound (length s)) pos"

section \<open>Arithmetic expressions as trees\<close>

text \<open>
  The reference reading of an arithmetic expression, following the words of the
  specification: an expression is a chain of terms joined by \<open>+\<close> and \<open>-\<close>, a term is a
  chain of factors joined by \<open>*\<close>, \<open>/\<close> and \<open>%\<close>, each chain grouped to the left, and a
  factor is a numeric literal, an expression in parentheses, either of them raised to
  a factor by \<open>^\<close>, or a factor with a sign in front. A tree carries the blanks
  in front of each token, so that \<open>unparse\<close> gives back the text. \<open>tree_value\<close> evaluates a
  tree from left to right: the left operand first, then the right one, then the operator
  (\<open>apply_op\<close>) on the two values.
  A literal is a nonempty run of digits with at most one decimal point, optionally
  followed by an exponent: the marker \<open>e\<close> or \<open>E\<close>, an optional sign and one or more digits.
\<close>

definition blank :: "string \<Rightarrow> bool" where
  "blank ws = list_all isspace ws"

definition mantissa_char :: "char \<Rightarrow> bool" where
  "mantissa_char c = (isdigit c \<or> c = CHR ''.'')"

fun exponent_ok :: "string \<Rightarrow> bool" where
  "exponent_ok [] = True"
| "exponent_ok (c # t) =
     ((c = CHR ''e'' \<or> c = CHR ''E'') \<and>
      (let d = (if t \<noteq> [] \<and> (hd t = CHR ''+'' \<or> hd t = CHR ''-'') then tl t else t)
       in d \<noteq> [] \<and> list_all isdigit d))"

definition literal :: "string \<Rightarrow> bool" where
  "literal l \<longleftrightarrow>
     (let mant = takeWhile mantissa_char l; ex = dropWhile mantissa_char l
      in mant \<noteq> [] \<and> count_list mant CHR ''.'' \<le> 1 \<and> exponent_ok ex)"

datatype binop = Op_add | Op_sub | Op_mul | Op_div | Op_mod

datatype unop = Op_neg | Op_pos

datatype ast =
    Num string string
  | Sign string unop ast
  | Pow ast string ast
  | Paren string ast string
  | Bin ast string binop ast

fun op_char :: "binop \<Rightarrow> char" where
  "op_char Op_add = CHR ''+''"
| "op_char Op_sub = CHR ''-''"
| "op_char Op_mul = CHR ''*''"
| "op_char Op_div = CHR ''/''"
| "op_char Op_mod = CHR ''%''"

fun is_mul_op :: "binop \<Rightarrow> bool" where
  "is_mul_op Op_add = False"
| "is_mul_op Op_sub = False"
| "is_mul_op Op_mul = True"
| "is_mul_op Op_div = True"
| "is_mul_op Op_mod = True"

fun sign_char :: "unop \<Rightarrow> char" where
  "sign_char Op_neg = CHR ''-''"
| "sign_char Op_pos = CHR ''+''"

fun unparse :: "ast \<Rightarrow> string" where
  "unparse (Num ws l) = ws @ l"
| "unparse (Sign ws u f) = ws @ [sign_char u] @ unparse f"
| "unparse (Pow b ws f) = unparse b @ ws @ ''^'' @ unparse f"
| "unparse (Paren ws e ws') = ws @ ''('' @ unparse e @ ws' @ '')''"
| "unparse (Bin a ws op b) = unparse a @ ws @ [op_char op] @ unparse b"

text \<open>What may stand in front of \<open>^\<close>: a literal or a group in parentheses.\<close>

fun is_base :: "ast \<Rightarrow> bool" where
  "is_base (Num ws l) = True"
| "is_base (Paren ws e ws') = True"
| "is_base (Sign ws u f) = False"
| "is_base (Pow b ws f) = False"
| "is_base (Bin a ws op b) = False"

fun is_factor :: "ast \<Rightarrow> bool" and is_term :: "ast \<Rightarrow> bool" and is_expr :: "ast \<Rightarrow> bool" where
  "is_factor (Num ws l) = (blank ws \<and> literal l)"
| "is_factor (Sign ws u f) = (blank ws \<and> is_factor f)"
| "is_factor (Pow b ws f) = (is_base b \<and> is_factor b \<and> blank ws \<and> is_factor f)"
| "is_factor (Paren ws e ws') = (blank ws \<and> is_expr e \<and> blank ws')"
| "is_factor (Bin a ws op b) = False"
| "is_term (Num ws l) = (blank ws \<and> literal l)"
| "is_term (Sign ws u f) = (blank ws \<and> is_factor f)"
| "is_term (Pow b ws f) = (is_base b \<and> is_factor b \<and> blank ws \<and> is_factor f)"
| "is_term (Paren ws e ws') = (blank ws \<and> is_expr e \<and> blank ws')"
| "is_term (Bin a ws op b) = (is_mul_op op \<and> is_term a \<and> blank ws \<and> is_factor b)"
| "is_expr (Num ws l) = (blank ws \<and> literal l)"
| "is_expr (Sign ws u f) = (blank ws \<and> is_factor f)"
| "is_expr (Pow b ws f) = (is_base b \<and> is_factor b \<and> blank ws \<and> is_factor f)"
| "is_expr (Paren ws e ws') = (blank ws \<and> is_expr e \<and> blank ws')"
| "is_expr (Bin a ws op b) =
     (blank ws \<and> (if is_mul_op op then is_term a \<and> is_factor b else is_expr a \<and> is_term b))"

text \<open>
  The meaning of the five operators, in the arithmetic of doubles and not in terms of
  the functions of StandardCalculator: sum, difference, product, quotient and
  \<^verbatim>\<open>std::fmod\<close> of the left and the right operand, in this order; a quotient or a
  remainder by a right operand that compares equal to zero is a domain error.
\<close>

fun apply_op :: "'v math \<Rightarrow> binop \<Rightarrow> 'v \<Rightarrow> 'v \<Rightarrow> exn + 'v" where
  "apply_op m Op_add x y = Inr (dadd m x y)"
| "apply_op m Op_sub x y = Inr (dsub m x y)"
| "apply_op m Op_mul x y = Inr (dmul m x y)"
| "apply_op m Op_div x y =
     (if deq m y (dlit m 0) then Inl (domain_error ''Division by zero'') else Inr (ddiv m x y))"
| "apply_op m Op_mod x y =
     (if deq m y (dlit m 0) then Inl (domain_error ''Modulo by zero'') else Inr (std_fmod m x y))"

fun tree_value :: "'v math \<Rightarrow> ast \<Rightarrow> exn + 'v" where
  "tree_value m (Num ws l) =
     (case stod m l of
        None \<Rightarrow> Inl (runtime_error (''Invalid number: '' @ l))
      | Some v \<Rightarrow> Inr v)"
| "tree_value m (Sign ws u f) =
     (case tree_value m f of
        Inl e \<Rightarrow> Inl e
      | Inr v \<Rightarrow> Inr (if u = Op_neg then dneg m v else v))"
| "tree_value m (Pow b ws f) =
     (case tree_value m b of
        Inl e \<Rightarrow> Inl e
      | Inr x \<Rightarrow> (case tree_value m f of Inl e \<Rightarrow> Inl e | Inr y \<Rightarrow> Inr (sc_power m x y)))"
| "tree_value m (Paren ws e ws') = tree_value m e"
| "tree_value m (Bin a ws op b) =
     (case tree_value m a of
        Inl e \<Rightarrow> Inl e
      | Inr x \<Rightarrow> (case tree_value m b of Inl e \<Rightarrow> Inl e | Inr y \<Rightarrow> apply_op m op x y))"

text \<open>
  What may follow a factor, a term or an expression without being taken as its
  continuation; \<open>ahead\<close> is the rest of the text after its leading blanks.
\<close>

definition ahead :: "string \<Rightarrow> string" where
  "ahead rest = dropWhile isspace rest"

definition literal_ends :: "string \<Rightarrow> bool" where
  "literal_ends rest \<longleftrightarrow>
     (rest = [] \<or> \<not> (isdigit (hd rest) \<or> hd rest = CHR ''.'' \<or> hd rest = CHR ''e'' \<or> hd rest = CHR ''E''))"

definition stops_factor :: "string \<Rightarrow> bool" where
  "stops_factor rest \<longleftrightarrow> literal_ends rest \<and> (ahead rest = [] \<or> hd (ahead rest) \<noteq> CHR ''^'')"

definition stops_term :: "string \<Rightarrow> bool" where
  "stops_term rest \<longleftrightarrow>
     stops_factor rest \<and>
     (ahead rest = [] \<or> \<not> (hd (ahead rest) = CHR ''*'' \<or> hd (ahead rest) = CHR ''/'' \<or> hd (ahead rest) = CHR ''%''))"

definition stops_expression :: "string \<Rightarrow> bool" where
  "stops_expression rest \<longleftrightarrow>
     stops_term rest \<and>
     (ahead rest = [] \<or> \<not> (hd (ahead rest) = CHR ''+'' \<or> hd (ahead rest) = CHR ''-''))"

text \<open>
  \<open>continues r val k\<close>: the run \<open>r\<close> agrees with the reference value \<open>val\<close>: it throws what
  \<open>val\<close> throws, and otherwise goes on as \<open>k\<close> applied to the value.
\<close>

definition continues :: "'v res option \<Rightarrow> exn + 'v \<Rightarrow> ('v \<Rightarrow> 'v res option) \<Rightarrow> bool" where
  "continues r val k =
     (case val of Inr v \<Rightarrow> r = k v | Inl x \<Rightarrow> (\<exists>p. r = Some (Inl x, p)))"

text \<open>The power check that follows a literal and a closing parenthesis in \<open>parse_factor\<close>.\<close>

definition power_check ::
  "'v math \<Rightarrow> (string \<rightharpoonup> ('v \<Rightarrow> exn + 'v)) \<Rightarrow> (string \<rightharpoonup> 'v) \<Rightarrow> string \<Rightarrow> 'v \<Rightarrow> nat \<Rightarrow> 'v res option" where
  "power_check m fs cs s result p =
     (let p2 = skip_whitespace s p in
      if p2 < length s \<and> s ! p2 = CHR ''^'' then
        (case run_factor m fs cs s (p2 + 1) of
           None \<Rightarrow> None
         | Some (Inl e, p3) \<Rightarrow> Some (Inl e, p3)
         | Some (Inr exponent, p3) \<Rightarrow> Some (Inr (sc_power m result exponent), p3))
      else Some (Inr result, p2))"

text \<open>
  A name as \<open>parse_factor\<close> reads it: it starts with a letter and goes on with letters,
  digits and underscores.
\<close>

definition ident_char :: "char \<Rightarrow> bool" where
  "ident_char c = (isalnum c \<or> c = CHR ''_'')"

definition is_identifier :: "string \<Rightarrow> bool" where
  "is_identifier name \<longleftrightarrow> name \<noteq> [] \<and> isalpha (hd name) \<and> list_all ident_char name"

text \<open>
  The texts that \<open>parse_number\<close> takes as one token, as its loops read them: digits and
  points with at most one point, then optionally a marker \<open>e\<close> or \<open>E\<close>, an optional sign
  and the digits that follow, which may be none. \<open>token_ends l rest\<close>: the loops stop
  between \<open>l\<close> and \<open>rest\<close>.
\<close>

fun exponent_scanned :: "string \<Rightarrow> bool" where
  "exponent_scanned [] = True"
| "exponent_scanned (c # t) =
     ((c = CHR ''e'' \<or> c = CHR ''E'') \<and>
      list_all isdigit (if t \<noteq> [] \<and> (hd t = CHR ''+'' \<or> hd t = CHR ''-'') then tl t else t))"

definition number_token :: "string \<Rightarrow> bool" where
  "number_token l \<longleftrightarrow>
     (let mant = takeWhile mantissa_char l; ex = dropWhile mantissa_char l
      in l \<noteq> [] \<and> count_list mant CHR ''.'' \<le> 1 \<and> exponent_scanned ex)"

definition token_ends :: "string \<Rightarrow> string \<Rightarrow> bool" where
  "token_ends l rest \<longleftrightarrow>
     rest = [] \<or>
     (let ex = dropWhile mantissa_char l in
      \<not> isdigit (hd rest) \<and>
      (ex = [] \<longrightarrow> hd rest \<noteq> CHR ''.'' \<and> hd rest \<noteq> CHR ''e'' \<and> hd rest \<noteq> CHR ''E'') \<and>
      (length ex = 1 \<longrightarrow> hd rest \<noteq> CHR ''+'' \<and> hd rest \<noteq> CHR ''-''))"


definition cursor_after :: "string \<Rightarrow> string \<Rightarrow> nat \<Rightarrow> nat" where
  "cursor_after u rest p =
     (if p < length u then p else length u + length (takeWhile isspace rest))"

definition cursor_ext :: "string \<Rightarrow> string \<Rightarrow> nat \<Rightarrow> nat \<Rightarrow> bool" where
  "cursor_ext u rest p p' =
     (if p < length u then p' = p
      else length u \<le> p' \<and> p' \<le> length u + length (takeWhile isspace rest))"

declare skip_whitespace.simps [simp del]
declare scan_identifier.simps [simp del]
declare scan_mantissa.simps [simp del]
declare scan_digits.simps [simp del]
declare parse_expression.simps [simp del]
declare expression_loop.simps [simp del]
declare parse_term.simps [simp del]
declare term_loop.simps [simp del]
declare parse_factor.simps [simp del]
declare apply_op.simps [simp del]

section \<open>The cursor only advances, and the depth bound suffices\<close>

lemma skip_whitespace_bounds: "pos \<le> skip_whitespace s pos \<and> skip_whitespace s pos \<le> max pos (length s)"
proof (induction s pos rule: skip_whitespace.induct)
  case (1 s pos)
  show ?case
  proof (cases "pos < length s \<and> isspace (s ! pos)")
    case True
    with 1 show ?thesis by (subst (1 2) skip_whitespace.simps) auto
  next
    case False
    then show ?thesis by (subst (1 2) skip_whitespace.simps) auto
  qed
qed

lemma scan_digits_bounds: "pos \<le> scan_digits s pos \<and> scan_digits s pos \<le> max pos (length s)"
proof (induction s pos rule: scan_digits.induct)
  case (1 s pos)
  show ?case
  proof (cases "pos < length s \<and> isdigit (s ! pos)")
    case True
    with 1 show ?thesis by (subst (1 2) scan_digits.simps) auto
  next
    case False
    then show ?thesis by (subst (1 2) scan_digits.simps) auto
  qed
qed

lemma scan_identifier_bounds:
  "scan_identifier s pos name = (name', p) \<Longrightarrow> pos \<le> p \<and> p \<le> max pos (length s)"
proof (induction s pos name rule: scan_identifier.induct)
  case (1 s pos name)
  show ?case
  proof (cases "pos < length s \<and> (isalnum (s ! pos) \<or> s ! pos = CHR ''_'')")
    case True
    with 1 show ?thesis by (subst (asm) (2) scan_identifier.simps) auto
  next
    case False
    with 1 show ?thesis by (subst (asm) (1) scan_identifier.simps) auto
  qed
qed

lemma scan_mantissa_bounds:
  "scan_mantissa s pos has_dot = (out, p) \<Longrightarrow> pos \<le> p \<and> p \<le> max pos (length s)"
proof (induction s pos has_dot rule: scan_mantissa.induct)
  case (1 s pos has_dot)
  let ?c = "pos < length s \<and> (isdigit (s ! pos) \<or> s ! pos = CHR ''.'')"
  show ?case
  proof (cases ?c)
    case False
    with "1.prems" show ?thesis by (subst (asm) scan_mantissa.simps) auto
  next
    case c: True
    show ?thesis
    proof (cases "s ! pos = CHR ''.''")
      case dot: True
      show ?thesis
      proof (cases has_dot)
        case True
        with c dot "1.prems" show ?thesis by (subst (asm) scan_mantissa.simps) auto
      next
        case False
        with c dot "1.prems" have "scan_mantissa s (pos + 1) True = (out, p)"
          by (subst (asm) scan_mantissa.simps) auto
        from "1.IH"(1)[OF c dot False this] c show ?thesis by auto
      qed
    next
      case nodot: False
      with c "1.prems" have "scan_mantissa s (pos + 1) has_dot = (out, p)"
        by (subst (asm) scan_mantissa.simps) auto
      from "1.IH"(2)[OF c nodot this] c show ?thesis by auto
    qed
  qed
qed

lemma exp_end_bounds: "p1 \<le> exp_end s p1 \<and> exp_end s p1 \<le> max p1 (length s)"
  using scan_digits_bounds[of "p1 + 1" s] scan_digits_bounds[of "p1 + 1 + 1" s]
  by (auto simp: exp_end_def Let_def)

lemma parse_number_alt:
  "parse_number m s pos =
     (let p0 = skip_whitespace s pos in
      if p0 \<ge> length s then (Inl (runtime_error ''Expected number''), p0)
      else
        case scan_mantissa s p0 False of
          (Inl e, p1) \<Rightarrow> (Inl e, p1)
        | (Inr _, p1) \<Rightarrow>
            if p0 = exp_end s p1 then (Inl (runtime_error ''Expected number''), exp_end s p1)
            else
               case stod m (substr s p0 (exp_end s p1 - p0)) of
                 None \<Rightarrow> (Inl (runtime_error (''Invalid number: '' @ substr s p0 (exp_end s p1 - p0))), exp_end s p1)
               | Some v \<Rightarrow> (Inr v, exp_end s p1))"
  unfolding parse_number_def exp_end_def Let_def ..

lemma parse_number_bounds:
  assumes "parse_number m s pos = (out, p)"
  shows "pos \<le> p \<and> p \<le> max pos (length s)"
proof -
  let ?p0 = "skip_whitespace s pos"
  note b0 = skip_whitespace_bounds[of pos s]
  show ?thesis
  proof (cases "?p0 \<ge> length s")
    case True
    with assms b0 show ?thesis by (auto simp: parse_number_alt Let_def)
  next
    case False
    obtain o1 p1 where sm: "scan_mantissa s ?p0 False = (o1, p1)" by (cases "scan_mantissa s ?p0 False")
    note b1 = scan_mantissa_bounds[OF sm]
    note b2 = exp_end_bounds[of p1 s]
    from assms False sm have "p = p1 \<or> p = exp_end s p1"
      by (auto simp: parse_number_alt Let_def split: sum.splits if_splits option.splits)
    with b0 b1 b2 False show ?thesis by auto
  qed
qed

lemma cursor_ok_None [simp]: "cursor_ok s pos None"
  by (simp add: cursor_ok_def)

lemma cursor_ok_Some [simp]: "cursor_ok s pos (Some (out, p)) = (pos \<le> p \<and> p \<le> max pos (length s))"
  by (simp add: cursor_ok_def)

lemma suff_Some [simp]: "suff s b pos (Some (out, p)) = (pos \<le> p \<and> p \<le> max pos (length s))"
  by (simp add: suff_def)

lemma suff_weaken: "suff s b pos r \<Longrightarrow> b' \<le> b \<Longrightarrow> suff s b' pos r"
  by (auto simp: suff_def)

lemma suff_trans:
  "pos \<le> pos' \<Longrightarrow> pos' \<le> max pos (length s) \<Longrightarrow> suff s b pos' r \<Longrightarrow> suff s b pos r"
  by (auto simp: suff_def cursor_ok_def split: option.splits)

lemma suff_bind:
  assumes "suff s b pos r"
    and "\<And>v p. r = Some (Inr v, p) \<Longrightarrow> suff s b p (k v p)"
  shows "suff s b pos (case r of None \<Rightarrow> None | Some (Inl e, p) \<Rightarrow> Some (Inl e, p) | Some (Inr v, p) \<Rightarrow> k v p)"
proof (cases r)
  case None
  with assms(1) show ?thesis by (simp add: suff_def)
next
  case (Some a)
  obtain out p where a: "a = (out, p)" by (cases a)
  show ?thesis
  proof (cases out)
    case (Inl e)
    with Some a assms(1) show ?thesis by simp
  next
    case (Inr v)
    with Some a assms(1) have b: "pos \<le> p" "p \<le> max pos (length s)" by simp_all
    from assms(2)[of v p] Some a Inr have "suff s b p (k v p)" by simp
    from suff_trans[OF b this] Some a Inr show ?thesis by simp
  qed
qed

lemma suff_skip:
  "suff s b (skip_whitespace s pos) r \<Longrightarrow> suff s b pos r"
  using skip_whitespace_bounds[of pos s] by (auto intro: suff_trans[of pos "skip_whitespace s pos"])

lemma suff_step:
  "pos < length s \<Longrightarrow> suff s (b - 3) (pos + 1) r \<Longrightarrow> suff s b pos r"
  by (auto simp: suff_def cursor_ok_def split: option.splits)


lemma suff_sum:
  assumes "suff s b pos (Some (Inl e, p))" and "\<And>v. suff s b pos (k v)"
  shows "suff s b pos (case x of Inl e \<Rightarrow> Some (Inl e, p) | Inr v \<Rightarrow> k v)"
  using assms by (cases x) auto

lemma expression_step_suff:
  assumes T: "\<And>pos b. b \<le> int n - 2 \<Longrightarrow> suff s b pos (parse_term m fs cs s n pos)"
    and EL: "\<And>r pos b. b \<le> int n - 1 \<Longrightarrow> suff s b pos (expression_loop m fs cs s n r pos)"
    and b: "b \<le> int (Suc n) - 3"
  shows "suff s b pos (parse_expression m fs cs s (Suc n) pos)"
  unfolding parse_expression.simps
  using b by (intro suff_bind T EL) auto

lemma expression_loop_step_suff:
  assumes T: "\<And>pos b. b \<le> int n - 2 \<Longrightarrow> suff s b pos (parse_term m fs cs s n pos)"
    and EL: "\<And>r pos b. b \<le> int n - 1 \<Longrightarrow> suff s b pos (expression_loop m fs cs s n r pos)"
    and b: "b \<le> int (Suc n) - 1"
  shows "suff s b pos (expression_loop m fs cs s (Suc n) r pos)"
proof (cases "pos < length s")
  case False
  then show ?thesis by (simp add: expression_loop.simps)
next
  case True
  let ?p1 = "skip_whitespace s pos"
  show ?thesis
  proof (rule suff_skip, cases "?p1 \<ge> length s")
    case True
    with \<open>pos < length s\<close> show "suff s b ?p1 (expression_loop m fs cs s (Suc n) r pos)"
      by (simp add: expression_loop.simps)
  next
    case False
    show "suff s b ?p1 (expression_loop m fs cs s (Suc n) r pos)"
    proof (cases "s ! ?p1 = CHR ''+'' \<or> s ! ?p1 = CHR ''-''")
      case op: True
      have "suff s b ?p1 (case parse_term m fs cs s n (?p1 + 1) of
               None \<Rightarrow> None
             | Some (Inl e, p2) \<Rightarrow> Some (Inl e, p2)
             | Some (Inr right, p2) \<Rightarrow>
                 expression_loop m fs cs s n
                   (if s ! ?p1 = CHR ''+'' then sc_add m r right
                    else sc_subtract m r right) p2)"
        using False b by (intro suff_step[of ?p1] suff_bind T EL) auto
      with op False \<open>pos < length s\<close> show ?thesis by (simp add: Let_def expression_loop.simps)
    next
      case nop: False
      with False \<open>pos < length s\<close> show ?thesis by (simp add: Let_def expression_loop.simps)
    qed
  qed
qed

lemma term_step_suff:
  assumes F: "\<And>pos b. b \<le> int n - 1 \<Longrightarrow> suff s b pos (parse_factor m fs cs s n pos)"
    and TL: "\<And>r pos b. b \<le> int n - 1 \<Longrightarrow> suff s b pos (term_loop m fs cs s n r pos)"
    and b: "b \<le> int (Suc n) - 2"
  shows "suff s b pos (parse_term m fs cs s (Suc n) pos)"
  unfolding parse_term.simps
  using b by (intro suff_bind F TL) auto

lemma term_loop_step_suff:
  assumes F: "\<And>pos b. b \<le> int n - 1 \<Longrightarrow> suff s b pos (parse_factor m fs cs s n pos)"
    and TL: "\<And>r pos b. b \<le> int n - 1 \<Longrightarrow> suff s b pos (term_loop m fs cs s n r pos)"
    and b: "b \<le> int (Suc n) - 1"
  shows "suff s b pos (term_loop m fs cs s (Suc n) r pos)"
proof (cases "pos < length s")
  case False
  then show ?thesis by (simp add: term_loop.simps)
next
  case True
  let ?p1 = "skip_whitespace s pos"
  show ?thesis
  proof (rule suff_skip, cases "?p1 \<ge> length s")
    case True
    with \<open>pos < length s\<close> show "suff s b ?p1 (term_loop m fs cs s (Suc n) r pos)"
      by (simp add: term_loop.simps)
  next
    case False
    show "suff s b ?p1 (term_loop m fs cs s (Suc n) r pos)"
    proof (cases "s ! ?p1 = CHR ''*'' \<or> s ! ?p1 = CHR ''/'' \<or> s ! ?p1 = CHR ''%''")
      case op: True
      have "suff s b ?p1 (case parse_factor m fs cs s n (?p1 + 1) of
               None \<Rightarrow> None
             | Some (Inl e, p2) \<Rightarrow> Some (Inl e, p2)
             | Some (Inr right, p2) \<Rightarrow>
                 (if s ! ?p1 = CHR ''*'' then
                    term_loop m fs cs s n (sc_multiply m r right) p2
                  else if s ! ?p1 = CHR ''/'' then
                    (case sc_divide m r right of
                       Inl e \<Rightarrow> Some (Inl e, p2)
                     | Inr v \<Rightarrow> term_loop m fs cs s n v p2)
                  else
                    (case sc_modulo m r right of
                       Inl e \<Rightarrow> Some (Inl e, p2)
                     | Inr v \<Rightarrow> term_loop m fs cs s n v p2)))"
        using False b by (intro suff_step[of ?p1] suff_bind F) (auto intro!: suff_sum TL)
      with op False \<open>pos < length s\<close> show ?thesis by (simp add: Let_def term_loop.simps)
    next
      case nop: False
      with False \<open>pos < length s\<close> show ?thesis by (simp add: Let_def term_loop.simps)
    qed
  qed
qed

lemma suff_power:
  assumes F0: "\<forall>pos b. b \<le> int n - 1 \<longrightarrow> suff s b pos (parse_factor m fs cs s n pos)"
    and b: "b \<le> int n + 2"
  shows "suff s b p
     (let p2 = skip_whitespace s p in
      if p2 < length s \<and> s ! p2 = CHR ''^'' then
        (case parse_factor m fs cs s n (p2 + 1) of
           None \<Rightarrow> None
         | Some (Inl e, p3) \<Rightarrow> Some (Inl e, p3)
         | Some (Inr exponent, p3) \<Rightarrow> Some (Inr (sc_power m result exponent), p3))
      else Some (Inr result, p2))"
proof -
  from F0 have F: "\<And>pos b. b \<le> int n - 1 \<Longrightarrow> suff s b pos (parse_factor m fs cs s n pos)"
    by blast
  let ?p2 = "skip_whitespace s p"
  note sb = skip_whitespace_bounds[of p s]
  show ?thesis
  proof (cases "?p2 < length s \<and> s ! ?p2 = CHR ''^''")
    case True
    have "suff s b ?p2 (case parse_factor m fs cs s n (?p2 + 1) of
           None \<Rightarrow> None
         | Some (Inl e, p3) \<Rightarrow> Some (Inl e, p3)
         | Some (Inr exponent, p3) \<Rightarrow> Some (Inr (sc_power m result exponent), p3))"
      using True b by (intro suff_step[of ?p2] suff_bind F) auto
    then have "suff s b p (case parse_factor m fs cs s n (?p2 + 1) of
           None \<Rightarrow> None
         | Some (Inl e, p3) \<Rightarrow> Some (Inl e, p3)
         | Some (Inr exponent, p3) \<Rightarrow> Some (Inr (sc_power m result exponent), p3))"
      by (rule suff_skip)
    with True show ?thesis by (simp add: Let_def)
  next
    case False
    with sb show ?thesis by (auto simp: Let_def)
  qed
qed

lemma factor_step_suff:
  assumes E: "\<And>pos b. b \<le> int n - 3 \<Longrightarrow> suff s b pos (parse_expression m fs cs s n pos)"
    and F: "\<And>pos b. b \<le> int n - 1 \<Longrightarrow> suff s b pos (parse_factor m fs cs s n pos)"
    and b: "b \<le> int (Suc n) - 1"
  shows "suff s b pos (parse_factor m fs cs s (Suc n) pos)"
proof (rule suff_skip)
  let ?p0 = "skip_whitespace s pos"
  let ?lhs = "parse_factor m fs cs s (Suc n) pos"
  from F have F0: "\<forall>pos b. b \<le> int n - 1 \<longrightarrow> suff s b pos (parse_factor m fs cs s n pos)"
    by blast
  note pw = suff_power[of n s m fs cs, OF F0]
  note u = parse_factor.simps(2)[of m fs cs s n pos]
  consider (eoi) "?p0 \<ge> length s"
    | (sign) "?p0 < length s" "s ! ?p0 = CHR ''-'' \<or> s ! ?p0 = CHR ''+''"
    | (paren) "?p0 < length s" "\<not> (s ! ?p0 = CHR ''-'' \<or> s ! ?p0 = CHR ''+'')" "s ! ?p0 = CHR ''(''"
    | (ident) "?p0 < length s" "\<not> (s ! ?p0 = CHR ''-'' \<or> s ! ?p0 = CHR ''+'')" "s ! ?p0 \<noteq> CHR ''(''"
        "isalpha (s ! ?p0)"
    | (num) "?p0 < length s" "\<not> (s ! ?p0 = CHR ''-'' \<or> s ! ?p0 = CHR ''+'')" "s ! ?p0 \<noteq> CHR ''(''"
        "\<not> isalpha (s ! ?p0)"
    by fastforce
  then show "suff s b ?p0 ?lhs"
  proof cases
    case eoi
    then show ?thesis by (simp add: u)
  next
    case sign
    have "suff s b ?p0 (case parse_factor m fs cs s n (?p0 + 1) of
           None \<Rightarrow> None
         | Some (Inl e, p1) \<Rightarrow> Some (Inl e, p1)
         | Some (Inr val, p1) \<Rightarrow> Some (Inr (if s ! ?p0 = CHR ''-'' then dneg m val else val), p1))"
      using sign(1) b by (intro suff_step[of ?p0] suff_bind F) auto
    with sign show ?thesis by (simp add: u Let_def)
  next
    case paren
    have "suff s b ?p0 (case parse_expression m fs cs s n (?p0 + 1) of
           None \<Rightarrow> None
         | Some (Inl e, p1) \<Rightarrow> Some (Inl e, p1)
         | Some (Inr result, p1) \<Rightarrow>
             let p2 = skip_whitespace s p1 in
             if p2 \<ge> length s \<or> s ! p2 \<noteq> CHR '')'' then
               Some (Inl (runtime_error ''Mismatched parentheses''), p2)
             else
               let p3 = skip_whitespace s (p2 + 1) in
               if p3 < length s \<and> s ! p3 = CHR ''^'' then
                 (case parse_factor m fs cs s n (p3 + 1) of
                    None \<Rightarrow> None
                  | Some (Inl e, p4) \<Rightarrow> Some (Inl e, p4)
                  | Some (Inr exponent, p4) \<Rightarrow> Some (Inr (sc_power m result exponent), p4))
               else Some (Inr result, p3))"
    proof (intro suff_step[of ?p0] suff_bind E paren(1))
      show "b - 3 \<le> int n - 3" using b by simp
    next
      fix v p
      let ?p2 = "skip_whitespace s p"
      show "suff s (b - 3) p (let p2 = skip_whitespace s p in
             if p2 \<ge> length s \<or> s ! p2 \<noteq> CHR '')'' then
               Some (Inl (runtime_error ''Mismatched parentheses''), p2)
             else
               let p3 = skip_whitespace s (p2 + 1) in
               if p3 < length s \<and> s ! p3 = CHR ''^'' then
                 (case parse_factor m fs cs s n (p3 + 1) of
                    None \<Rightarrow> None
                  | Some (Inl e, p4) \<Rightarrow> Some (Inl e, p4)
                  | Some (Inr exponent, p4) \<Rightarrow> Some (Inr (sc_power m v exponent), p4))
               else Some (Inr v, p3))"
      proof (cases "?p2 \<ge> length s \<or> s ! ?p2 \<noteq> CHR '')''")
        case True
        with skip_whitespace_bounds[of p s] show ?thesis by (auto simp: Let_def)
      next
        case False
        then have lt: "?p2 < length s" by simp
        have "b - 3 - 3 \<le> int n + 2" using b by simp
        from pw[OF this, of "?p2 + 1" v] have "suff s (b - 3) p (let p3 = skip_whitespace s (?p2 + 1) in
               if p3 < length s \<and> s ! p3 = CHR ''^'' then
                 (case parse_factor m fs cs s n (p3 + 1) of
                    None \<Rightarrow> None
                  | Some (Inl e, p4) \<Rightarrow> Some (Inl e, p4)
                  | Some (Inr exponent, p4) \<Rightarrow> Some (Inr (sc_power m v exponent), p4))
               else Some (Inr v, p3))"
          by (intro suff_skip[of s _ p] suff_step[of ?p2] lt)
        with False show ?thesis by (simp add: Let_def)
      qed
    qed
    with paren show ?thesis by (simp add: u Let_def)
  next
    case ident
    obtain name p1 where si: "scan_identifier s ?p0 [] = (name, p1)"
      by (cases "scan_identifier s ?p0 []")
    note b1 = scan_identifier_bounds[OF si]
    let ?p2 = "skip_whitespace s p1"
    note b2 = skip_whitespace_bounds[of p1 s]
    show ?thesis
    proof (cases "?p2 < length s \<and> s ! ?p2 = CHR ''(''")
      case call: True
      have "suff s b ?p2 (case parse_expression m fs cs s n (?p2 + 1) of
              None \<Rightarrow> None
            | Some (Inl e, p3) \<Rightarrow> Some (Inl e, p3)
            | Some (Inr arg, p3) \<Rightarrow>
                let p4 = skip_whitespace s p3 in
                if p4 \<ge> length s \<or> s ! p4 \<noteq> CHR '')'' then
                  Some (Inl (runtime_error ''Mismatched parentheses in function call''), p4)
                else
                  (case fs name of
                     None \<Rightarrow> Some (Inl (runtime_error (''Unknown function: '' @ name)), p4 + 1)
                   | Some f \<Rightarrow> Some (f arg, p4 + 1)))"
      proof (intro suff_step[of ?p2] suff_bind E)
        show "b - 3 \<le> int n - 3" using b by simp
      next
        fix v p
        from skip_whitespace_bounds[of p s]
        show "suff s (b - 3) p (let p4 = skip_whitespace s p in
                if p4 \<ge> length s \<or> s ! p4 \<noteq> CHR '')'' then
                  Some (Inl (runtime_error ''Mismatched parentheses in function call''), p4)
                else
                  (case fs name of
                     None \<Rightarrow> Some (Inl (runtime_error (''Unknown function: '' @ name)), p4 + 1)
                   | Some f \<Rightarrow> Some (f v, p4 + 1)))"
          by (auto simp: Let_def split: option.splits)
      qed (use call in simp)
      then have "suff s b ?p0 (case parse_expression m fs cs s n (?p2 + 1) of
              None \<Rightarrow> None
            | Some (Inl e, p3) \<Rightarrow> Some (Inl e, p3)
            | Some (Inr arg, p3) \<Rightarrow>
                let p4 = skip_whitespace s p3 in
                if p4 \<ge> length s \<or> s ! p4 \<noteq> CHR '')'' then
                  Some (Inl (runtime_error ''Mismatched parentheses in function call''), p4)
                else
                  (case fs name of
                     None \<Rightarrow> Some (Inl (runtime_error (''Unknown function: '' @ name)), p4 + 1)
                   | Some f \<Rightarrow> Some (f arg, p4 + 1)))"
        using b1 b2 ident(1) by (intro suff_trans[of ?p0 ?p2]) auto
      with ident call si show ?thesis by (simp add: u Let_def)
    next
      case False
      with ident si b1 b2 show ?thesis by (auto simp: u Let_def split: option.splits)
    qed
  next
    case num
    obtain out p1 where pn: "parse_number m s ?p0 = (out, p1)"
      by (cases "parse_number m s ?p0")
    note b1 = parse_number_bounds[OF pn]
    show ?thesis
    proof (cases out)
      case (Inl e)
      with num pn b1 show ?thesis by (simp add: u Let_def)
    next
      case (Inr result)
      have "b \<le> int n + 2" using b by simp
      from pw[OF this, of p1 result] b1 num(1) have "suff s b ?p0
         (let p2 = skip_whitespace s p1 in
          if p2 < length s \<and> s ! p2 = CHR ''^'' then
            (case parse_factor m fs cs s n (p2 + 1) of
               None \<Rightarrow> None
             | Some (Inl e, p3) \<Rightarrow> Some (Inl e, p3)
             | Some (Inr exponent, p3) \<Rightarrow> Some (Inr (sc_power m result exponent), p3))
          else Some (Inr result, p2))"
        by (intro suff_trans[of ?p0 p1]) auto
      with num pn Inr show ?thesis by (simp add: u Let_def)
    qed
  qed
qed

lemma descent_suff:
  "(\<forall>pos b. b \<le> int n - 3 \<longrightarrow> suff s b pos (parse_expression m fs cs s n pos)) \<and>
   (\<forall>r pos b. b \<le> int n - 1 \<longrightarrow> suff s b pos (expression_loop m fs cs s n r pos)) \<and>
   (\<forall>pos b. b \<le> int n - 2 \<longrightarrow> suff s b pos (parse_term m fs cs s n pos)) \<and>
   (\<forall>r pos b. b \<le> int n - 1 \<longrightarrow> suff s b pos (term_loop m fs cs s n r pos)) \<and>
   (\<forall>pos b. b \<le> int n - 1 \<longrightarrow> suff s b pos (parse_factor m fs cs s n pos))"
proof (induction n)
  case 0
  show ?case by (simp add: suff_def parse_expression.simps expression_loop.simps parse_term.simps
        term_loop.simps parse_factor.simps)
next
  case (Suc n)
  then show ?case
    by (intro conjI allI impI expression_step_suff expression_loop_step_suff
          term_step_suff term_loop_step_suff factor_step_suff) blast+
qed


section \<open>A larger depth bound changes no result\<close>

lemma expression_step_mono:
  assumes T: "\<And>pos. parse_term m fs cs s n pos \<noteq> None \<Longrightarrow> parse_term m fs cs s (Suc n) pos = parse_term m fs cs s n pos"
    and L: "\<And>r pos. expression_loop m fs cs s n r pos \<noteq> None \<Longrightarrow> expression_loop m fs cs s (Suc n) r pos = expression_loop m fs cs s n r pos"
    and "parse_expression m fs cs s (Suc n) pos \<noteq> None"
  shows "parse_expression m fs cs s (Suc (Suc n)) pos = parse_expression m fs cs s (Suc n) pos"
  using assms(3)
  unfolding parse_expression.simps(2)[of m fs cs s "Suc n" pos] parse_expression.simps(2)[of m fs cs s n pos]
  by (auto simp: T L split: option.splits sum.splits)

lemma expression_loop_step_mono:
  assumes T: "\<And>pos. parse_term m fs cs s n pos \<noteq> None \<Longrightarrow> parse_term m fs cs s (Suc n) pos = parse_term m fs cs s n pos"
    and L: "\<And>r pos. expression_loop m fs cs s n r pos \<noteq> None \<Longrightarrow> expression_loop m fs cs s (Suc n) r pos = expression_loop m fs cs s n r pos"
    and "expression_loop m fs cs s (Suc n) r pos \<noteq> None"
  shows "expression_loop m fs cs s (Suc (Suc n)) r pos = expression_loop m fs cs s (Suc n) r pos"
  using assms(3)
  unfolding expression_loop.simps(2)[of m fs cs s "Suc n" r pos] expression_loop.simps(2)[of m fs cs s n r pos]
  by (auto simp: Let_def T L split: option.splits sum.splits)

lemma term_step_mono:
  assumes F: "\<And>pos. parse_factor m fs cs s n pos \<noteq> None \<Longrightarrow> parse_factor m fs cs s (Suc n) pos = parse_factor m fs cs s n pos"
    and L: "\<And>r pos. term_loop m fs cs s n r pos \<noteq> None \<Longrightarrow> term_loop m fs cs s (Suc n) r pos = term_loop m fs cs s n r pos"
    and "parse_term m fs cs s (Suc n) pos \<noteq> None"
  shows "parse_term m fs cs s (Suc (Suc n)) pos = parse_term m fs cs s (Suc n) pos"
  using assms(3)
  unfolding parse_term.simps(2)[of m fs cs s "Suc n" pos] parse_term.simps(2)[of m fs cs s n pos]
  by (auto simp: F L split: option.splits sum.splits)

lemma term_loop_step_mono:
  assumes F: "\<And>pos. parse_factor m fs cs s n pos \<noteq> None \<Longrightarrow> parse_factor m fs cs s (Suc n) pos = parse_factor m fs cs s n pos"
    and L: "\<And>r pos. term_loop m fs cs s n r pos \<noteq> None \<Longrightarrow> term_loop m fs cs s (Suc n) r pos = term_loop m fs cs s n r pos"
    and "term_loop m fs cs s (Suc n) r pos \<noteq> None"
  shows "term_loop m fs cs s (Suc (Suc n)) r pos = term_loop m fs cs s (Suc n) r pos"
  using assms(3)
  unfolding term_loop.simps(2)[of m fs cs s "Suc n" r pos] term_loop.simps(2)[of m fs cs s n r pos]
  by (auto simp: Let_def F L split: option.splits sum.splits)

lemma factor_step_mono:
  assumes F: "\<And>pos. parse_factor m fs cs s n pos \<noteq> None \<Longrightarrow> parse_factor m fs cs s (Suc n) pos = parse_factor m fs cs s n pos"
    and E: "\<And>pos. parse_expression m fs cs s n pos \<noteq> None \<Longrightarrow> parse_expression m fs cs s (Suc n) pos = parse_expression m fs cs s n pos"
    and nn: "parse_factor m fs cs s (Suc n) pos \<noteq> None"
  shows "parse_factor m fs cs s (Suc (Suc n)) pos = parse_factor m fs cs s (Suc n) pos"
proof -
  let ?p0 = "skip_whitespace s pos"
  note u = parse_factor.simps(2)[of m fs cs s "Suc n" pos] parse_factor.simps(2)[of m fs cs s n pos]
  consider (eoi) "?p0 \<ge> length s"
    | (sign) "?p0 < length s" "s ! ?p0 = CHR ''-'' \<or> s ! ?p0 = CHR ''+''"
    | (paren) "?p0 < length s" "\<not> (s ! ?p0 = CHR ''-'' \<or> s ! ?p0 = CHR ''+'')" "s ! ?p0 = CHR ''(''"
    | (ident) "?p0 < length s" "\<not> (s ! ?p0 = CHR ''-'' \<or> s ! ?p0 = CHR ''+'')" "s ! ?p0 \<noteq> CHR ''(''"
        "isalpha (s ! ?p0)"
    | (num) "?p0 < length s" "\<not> (s ! ?p0 = CHR ''-'' \<or> s ! ?p0 = CHR ''+'')" "s ! ?p0 \<noteq> CHR ''(''"
        "\<not> isalpha (s ! ?p0)"
    by fastforce
  then show ?thesis
  proof cases
    case eoi
    then show ?thesis unfolding u by (simp add: Let_def)
  next
    case sign
    with nn show ?thesis unfolding u
      by (simp add: Let_def) (auto simp: F split: option.splits sum.splits)
  next
    case paren
    with nn show ?thesis unfolding u
      by (simp add: Let_def) (auto simp: Let_def F E split: option.splits sum.splits)
  next
    case ident
    obtain name p1 where si: "scan_identifier s ?p0 [] = (name, p1)"
      by (cases "scan_identifier s ?p0 []")
    with ident nn show ?thesis unfolding u
      by (simp add: Let_def) (auto simp: Let_def F E split: option.splits sum.splits)
  next
    case num
    obtain out p1 where pn: "parse_number m s ?p0 = (out, p1)"
      by (cases "parse_number m s ?p0")
    with num nn show ?thesis unfolding u
      by (simp add: Let_def) (auto simp: Let_def F E split: option.splits sum.splits)
  qed
qed

lemma descent_mono_Suc:
  "(\<forall>pos. parse_expression m fs cs s n pos \<noteq> None \<longrightarrow>
       parse_expression m fs cs s (Suc n) pos = parse_expression m fs cs s n pos) \<and>
   (\<forall>r pos. expression_loop m fs cs s n r pos \<noteq> None \<longrightarrow>
       expression_loop m fs cs s (Suc n) r pos = expression_loop m fs cs s n r pos) \<and>
   (\<forall>pos. parse_term m fs cs s n pos \<noteq> None \<longrightarrow>
       parse_term m fs cs s (Suc n) pos = parse_term m fs cs s n pos) \<and>
   (\<forall>r pos. term_loop m fs cs s n r pos \<noteq> None \<longrightarrow>
       term_loop m fs cs s (Suc n) r pos = term_loop m fs cs s n r pos) \<and>
   (\<forall>pos. parse_factor m fs cs s n pos \<noteq> None \<longrightarrow>
       parse_factor m fs cs s (Suc n) pos = parse_factor m fs cs s n pos)"
proof (induction n)
  case 0
  show ?case by (simp add: parse_expression.simps expression_loop.simps parse_term.simps
        term_loop.simps parse_factor.simps)
next
  case (Suc n)
  then show ?case
    by (intro conjI allI impI expression_step_mono expression_loop_step_mono
          term_step_mono term_loop_step_mono factor_step_mono) blast+
qed

section \<open>Consequences for the three productions and for evaluate\<close>

lemma descent_suff_inst:
  "suff s (int n - 3) pos (parse_expression m fs cs s n pos)"
  "suff s (int n - 1) pos (expression_loop m fs cs s n r pos)"
  "suff s (int n - 2) pos (parse_term m fs cs s n pos)"
  "suff s (int n - 1) pos (term_loop m fs cs s n r pos)"
  "suff s (int n - 1) pos (parse_factor m fs cs s n pos)"
  using descent_suff[of n s m fs cs] by blast+

lemma suff_boundsD:
  "suff s b pos r \<Longrightarrow> r = Some (out, p) \<Longrightarrow> pos \<le> p \<and> p \<le> max pos (length s)"
  by (simp add: suff_def)

lemma suff_returnsD:
  "suff s b pos r \<Longrightarrow> 3 * int (length s - pos) \<le> b \<Longrightarrow> r \<noteq> None"
  by (simp add: suff_def)

lemma descent_bounds:
  "parse_expression m fs cs s n pos = Some (out, p) \<Longrightarrow> pos \<le> p \<and> p \<le> max pos (length s)"
  "expression_loop m fs cs s n r pos = Some (out, p) \<Longrightarrow> pos \<le> p \<and> p \<le> max pos (length s)"
  "parse_term m fs cs s n pos = Some (out, p) \<Longrightarrow> pos \<le> p \<and> p \<le> max pos (length s)"
  "term_loop m fs cs s n r pos = Some (out, p) \<Longrightarrow> pos \<le> p \<and> p \<le> max pos (length s)"
  "parse_factor m fs cs s n pos = Some (out, p) \<Longrightarrow> pos \<le> p \<and> p \<le> max pos (length s)"
  by (rule suff_boundsD[OF descent_suff_inst(1)], assumption)
     (rule suff_boundsD[OF descent_suff_inst(2)], assumption,
      rule suff_boundsD[OF descent_suff_inst(3)], assumption,
      rule suff_boundsD[OF descent_suff_inst(4)], assumption,
      rule suff_boundsD[OF descent_suff_inst(5)], assumption)

lemma descent_returns:
  "3 * (length s - pos) + 3 \<le> n \<Longrightarrow> parse_expression m fs cs s n pos \<noteq> None"
  "3 * (length s - pos) + 1 \<le> n \<Longrightarrow> expression_loop m fs cs s n r pos \<noteq> None"
  "3 * (length s - pos) + 2 \<le> n \<Longrightarrow> parse_term m fs cs s n pos \<noteq> None"
  "3 * (length s - pos) + 1 \<le> n \<Longrightarrow> term_loop m fs cs s n r pos \<noteq> None"
  "3 * (length s - pos) + 1 \<le> n \<Longrightarrow> parse_factor m fs cs s n pos \<noteq> None"
  by (rule suff_returnsD[OF descent_suff_inst(1)], simp)
     (rule suff_returnsD[OF descent_suff_inst(2)], simp,
      rule suff_returnsD[OF descent_suff_inst(3)], simp,
      rule suff_returnsD[OF descent_suff_inst(4)], simp,
      rule suff_returnsD[OF descent_suff_inst(5)], simp)

lemma descent_mono_add:
  "parse_expression m fs cs s n pos \<noteq> None \<Longrightarrow>
     parse_expression m fs cs s (n + k) pos = parse_expression m fs cs s n pos"
  "expression_loop m fs cs s n r pos \<noteq> None \<Longrightarrow>
     expression_loop m fs cs s (n + k) r pos = expression_loop m fs cs s n r pos"
  "parse_term m fs cs s n pos \<noteq> None \<Longrightarrow>
     parse_term m fs cs s (n + k) pos = parse_term m fs cs s n pos"
  "term_loop m fs cs s n r pos \<noteq> None \<Longrightarrow>
     term_loop m fs cs s (n + k) r pos = term_loop m fs cs s n r pos"
  "parse_factor m fs cs s n pos \<noteq> None \<Longrightarrow>
     parse_factor m fs cs s (n + k) pos = parse_factor m fs cs s n pos"
proof (induction k)
  case 0
  { case 1 show ?case by simp }
  { case 2 show ?case by simp }
  { case 3 show ?case by simp }
  { case 4 show ?case by simp }
  { case 5 show ?case by simp }
next
  case (Suc k)
  note d = descent_mono_Suc[of m fs cs s "n + k"]
  { case 1 with Suc.IH(1) d show ?case by auto }
  { case 2 with Suc.IH(2) d show ?case by auto }
  { case 3 with Suc.IH(3) d show ?case by auto }
  { case 4 with Suc.IH(4) d show ?case by auto }
  { case 5 with Suc.IH(5) d show ?case by auto }
qed

lemma descent_mono:
  "parse_expression m fs cs s n pos = Some x \<Longrightarrow> n \<le> n' \<Longrightarrow> parse_expression m fs cs s n' pos = Some x"
  "expression_loop m fs cs s n r pos = Some x \<Longrightarrow> n \<le> n' \<Longrightarrow> expression_loop m fs cs s n' r pos = Some x"
  "parse_term m fs cs s n pos = Some x \<Longrightarrow> n \<le> n' \<Longrightarrow> parse_term m fs cs s n' pos = Some x"
  "term_loop m fs cs s n r pos = Some x \<Longrightarrow> n \<le> n' \<Longrightarrow> term_loop m fs cs s n' r pos = Some x"
  "parse_factor m fs cs s n pos = Some x \<Longrightarrow> n \<le> n' \<Longrightarrow> parse_factor m fs cs s n' pos = Some x"
  using descent_mono_add[where n = n and k = "n' - n" and m = m and fs = fs and cs = cs and s = s]
  by auto

lemma evaluate_returns:
  "\<exists>out p. evaluate m P e = Some (out, P\<lparr>m_input := e, m_pos := p\<rparr>) \<and> p \<le> length e"
proof -
  let ?r = "parse_expression m (m_functions P) (m_constants P) e (depth_bound (length e)) 0"
  have "?r \<noteq> None" by (rule descent_returns) (simp add: depth_bound_def)
  then obtain out p where r: "?r = Some (out, p)" by (cases ?r) auto
  from descent_bounds(1)[OF r] have "p \<le> length e" by simp
  with r show ?thesis by (auto simp: evaluate_def)
qed

lemma evaluate_eq:
  assumes "parse_expression m (m_functions P) (m_constants P) e n 0 = Some (out, p)"
  shows "evaluate m P e = Some (out, P\<lparr>m_input := e, m_pos := p\<rparr>)"
proof -
  let ?N = "depth_bound (length e)"
  let ?r = "parse_expression m (m_functions P) (m_constants P) e ?N 0"
  have nn: "?r \<noteq> None" by (rule descent_returns) (simp add: depth_bound_def)
  have "?r = Some (out, p)"
  proof (cases "n \<le> ?N")
    case True
    from descent_mono(1)[OF assms True] show ?thesis .
  next
    case False
    from nn obtain x where x: "?r = Some x" by auto
    from descent_mono(1)[OF x, of n] False assms show ?thesis using x by simp
  qed
  then show ?thesis by (simp add: evaluate_def)
qed

lemmas descent_numeral =
  parse_expression.simps(2)[of _ _ _ _ "pred_numeral k" for k, folded numeral_eq_Suc]
  expression_loop.simps(2)[of _ _ _ _ "pred_numeral k" for k, folded numeral_eq_Suc]
  parse_term.simps(2)[of _ _ _ _ "pred_numeral k" for k, folded numeral_eq_Suc]
  term_loop.simps(2)[of _ _ _ _ "pred_numeral k" for k, folded numeral_eq_Suc]
  parse_factor.simps(2)[of _ _ _ _ "pred_numeral k" for k, folded numeral_eq_Suc]

lemmas scans = skip_whitespace.simps scan_identifier.simps scan_mantissa.simps scan_digits.simps
  isspace_def isdigit_def isalpha_def isalnum_def parse_number_def substr_def

lemma exact_sel:
  "dlit exact_math = of_rat" "stod exact_math = stod_exact"
  "dadd exact_math = (+)" "dsub exact_math = (-)" "dmul exact_math = (*)" "ddiv exact_math = (/)"
  "dneg exact_math = uminus" "deq exact_math = (=)" "dlt exact_math = (<)"
  "std_fmod exact_math = fmod_exact" "std_pow exact_math = pow_exact" "std_fn exact_math = fn_exact"
  by (simp_all add: exact_math_def)

lemmas exacts = exact_sel stod_exact_def digits_value_def digit_value_def pow_exact_def fmod_exact_def

lemmas calc = sc_add_def sc_subtract_def sc_multiply_def sc_divide_def sc_modulo_def sc_power_def

lemma registry:
  "m_functions (new_ExpressionParser m) =
     [''sin'' \<mapsto> sc_sin m, ''cos'' \<mapsto> sc_cos m, ''tan'' \<mapsto> sc_tan m,
      ''asin'' \<mapsto> sc_asin m, ''acos'' \<mapsto> sc_acos m, ''atan'' \<mapsto> sc_atan m,
      ''sinh'' \<mapsto> sc_sinh m, ''cosh'' \<mapsto> sc_cosh m, ''tanh'' \<mapsto> sc_tanh m,
      ''sqrt'' \<mapsto> sc_sqrt m, ''cbrt'' \<mapsto> sc_cbrt m, ''abs'' \<mapsto> sc_abs m,
      ''exp'' \<mapsto> sc_exp m, ''ln'' \<mapsto> sc_log m, ''log'' \<mapsto> sc_log10 m, ''log2'' \<mapsto> sc_log2 m,
      ''floor'' \<mapsto> sc_floor m, ''ceil'' \<mapsto> sc_ceil m, ''round'' \<mapsto> sc_round m]"
  "m_constants (new_ExpressionParser m) =
     [''pi'' \<mapsto> PI m, ''e'' \<mapsto> E m, ''phi'' \<mapsto> GOLDEN_RATIO m]"
  by (simp_all add: new_ExpressionParser_def register_function_def register_constant_def)

section \<open>The recursion equations of the source\<close>

lemma descent_stable:
  "3 * (length s - pos) + 3 \<le> n \<Longrightarrow> n \<le> n' \<Longrightarrow>
     parse_expression m fs cs s n' pos = parse_expression m fs cs s n pos"
  "3 * (length s - pos) + 1 \<le> n \<Longrightarrow> n \<le> n' \<Longrightarrow>
     expression_loop m fs cs s n' r pos = expression_loop m fs cs s n r pos"
  "3 * (length s - pos) + 2 \<le> n \<Longrightarrow> n \<le> n' \<Longrightarrow>
     parse_term m fs cs s n' pos = parse_term m fs cs s n pos"
  "3 * (length s - pos) + 1 \<le> n \<Longrightarrow> n \<le> n' \<Longrightarrow>
     term_loop m fs cs s n' r pos = term_loop m fs cs s n r pos"
  "3 * (length s - pos) + 1 \<le> n \<Longrightarrow> n \<le> n' \<Longrightarrow>
     parse_factor m fs cs s n' pos = parse_factor m fs cs s n pos"
  using descent_returns[of s pos n m fs cs]
    descent_mono_add[where n = n and k = "n' - n" and m = m and fs = fs and cs = cs and s = s]
  by auto

lemma pred_fuel:
  "parse_expression m fs cs s (3 * length s + 3) pos = run_expression m fs cs s pos"
  "expression_loop m fs cs s (3 * length s + 3) r pos = run_expression_loop m fs cs s r pos"
  "parse_term m fs cs s (3 * length s + 3) pos = run_term m fs cs s pos"
  "term_loop m fs cs s (3 * length s + 3) r pos = run_term_loop m fs cs s r pos"
  "parse_factor m fs cs s (3 * length s + 3) pos = run_factor m fs cs s pos"
proof -
  show "parse_expression m fs cs s (3 * length s + 3) pos = run_expression m fs cs s pos"
    unfolding run_expression_def depth_bound_def by (rule descent_stable(1)[symmetric]) auto
  show "expression_loop m fs cs s (3 * length s + 3) r pos = run_expression_loop m fs cs s r pos"
    unfolding run_expression_loop_def depth_bound_def by (rule descent_stable(2)[symmetric]) auto
  show "parse_term m fs cs s (3 * length s + 3) pos = run_term m fs cs s pos"
    unfolding run_term_def depth_bound_def by (rule descent_stable(3)[symmetric]) auto
  show "term_loop m fs cs s (3 * length s + 3) r pos = run_term_loop m fs cs s r pos"
    unfolding run_term_loop_def depth_bound_def by (rule descent_stable(4)[symmetric]) auto
  show "parse_factor m fs cs s (3 * length s + 3) pos = run_factor m fs cs s pos"
    unfolding run_factor_def depth_bound_def by (rule descent_stable(5)[symmetric]) auto
qed

lemma depth_bound_Suc: "depth_bound k = Suc (3 * k + 3)"
  by (simp add: depth_bound_def)

lemma run_expression_eq:
  "run_expression m fs cs s pos =
     (case run_term m fs cs s pos of
        None \<Rightarrow> None
      | Some (Inl e, p1) \<Rightarrow> Some (Inl e, p1)
      | Some (Inr result, p1) \<Rightarrow> run_expression_loop m fs cs s result p1)"
  by (subst run_expression_def) (simp only: depth_bound_Suc parse_expression.simps(2) pred_fuel)

lemma run_expression_loop_eq:
  "run_expression_loop m fs cs s result pos =
     (if pos < length s then
        let p1 = skip_whitespace s pos in
        if p1 \<ge> length s then Some (Inr result, p1)
        else
          let op = s ! p1 in
          if op = CHR ''+'' \<or> op = CHR ''-'' then
            (case run_term m fs cs s (p1 + 1) of
               None \<Rightarrow> None
             | Some (Inl e, p2) \<Rightarrow> Some (Inl e, p2)
             | Some (Inr right, p2) \<Rightarrow>
                 run_expression_loop m fs cs s
                   (if op = CHR ''+'' then sc_add m result right
                    else sc_subtract m result right) p2)
          else Some (Inr result, p1)
      else Some (Inr result, pos))"
  by (subst run_expression_loop_def) (simp only: depth_bound_Suc expression_loop.simps(2) pred_fuel)

lemma run_term_eq:
  "run_term m fs cs s pos =
     (case run_factor m fs cs s pos of
        None \<Rightarrow> None
      | Some (Inl e, p1) \<Rightarrow> Some (Inl e, p1)
      | Some (Inr result, p1) \<Rightarrow> run_term_loop m fs cs s result p1)"
  by (subst run_term_def) (simp only: depth_bound_Suc parse_term.simps(2) pred_fuel)

lemma run_term_loop_eq:
  "run_term_loop m fs cs s result pos =
     (if pos < length s then
        let p1 = skip_whitespace s pos in
        if p1 \<ge> length s then Some (Inr result, p1)
        else
          let op = s ! p1 in
          if op = CHR ''*'' \<or> op = CHR ''/'' \<or> op = CHR ''%'' then
            (case run_factor m fs cs s (p1 + 1) of
               None \<Rightarrow> None
             | Some (Inl e, p2) \<Rightarrow> Some (Inl e, p2)
             | Some (Inr right, p2) \<Rightarrow>
                 (if op = CHR ''*'' then
                    run_term_loop m fs cs s (sc_multiply m result right) p2
                  else if op = CHR ''/'' then
                    (case sc_divide m result right of
                       Inl e \<Rightarrow> Some (Inl e, p2)
                     | Inr v \<Rightarrow> run_term_loop m fs cs s v p2)
                  else
                    (case sc_modulo m result right of
                       Inl e \<Rightarrow> Some (Inl e, p2)
                     | Inr v \<Rightarrow> run_term_loop m fs cs s v p2)))
          else Some (Inr result, p1)
      else Some (Inr result, pos))"
  by (subst run_term_loop_def) (simp only: depth_bound_Suc term_loop.simps(2) pred_fuel)

lemma run_factor_eq:
  "run_factor m fs cs s pos =
     (let p0 = skip_whitespace s pos in
      if p0 \<ge> length s then Some (Inl (runtime_error ''Unexpected end of expression''), p0)
      else if s ! p0 = CHR ''-'' \<or> s ! p0 = CHR ''+'' then
        (let op = s ! p0 in
         case run_factor m fs cs s (p0 + 1) of
           None \<Rightarrow> None
         | Some (Inl e, p1) \<Rightarrow> Some (Inl e, p1)
         | Some (Inr val, p1) \<Rightarrow> Some (Inr (if op = CHR ''-'' then dneg m val else val), p1))
      else if s ! p0 = CHR ''('' then
        (case run_expression m fs cs s (p0 + 1) of
           None \<Rightarrow> None
         | Some (Inl e, p1) \<Rightarrow> Some (Inl e, p1)
         | Some (Inr result, p1) \<Rightarrow>
             let p2 = skip_whitespace s p1 in
             if p2 \<ge> length s \<or> s ! p2 \<noteq> CHR '')'' then
               Some (Inl (runtime_error ''Mismatched parentheses''), p2)
             else
               let p3 = skip_whitespace s (p2 + 1) in
               if p3 < length s \<and> s ! p3 = CHR ''^'' then
                 (case run_factor m fs cs s (p3 + 1) of
                    None \<Rightarrow> None
                  | Some (Inl e, p4) \<Rightarrow> Some (Inl e, p4)
                  | Some (Inr exponent, p4) \<Rightarrow> Some (Inr (sc_power m result exponent), p4))
               else Some (Inr result, p3))
      else if isalpha (s ! p0) then
        (let (name, p1) = scan_identifier s p0 [];
             p2 = skip_whitespace s p1 in
         if p2 < length s \<and> s ! p2 = CHR ''('' then
           (case run_expression m fs cs s (p2 + 1) of
              None \<Rightarrow> None
            | Some (Inl e, p3) \<Rightarrow> Some (Inl e, p3)
            | Some (Inr arg, p3) \<Rightarrow>
                let p4 = skip_whitespace s p3 in
                if p4 \<ge> length s \<or> s ! p4 \<noteq> CHR '')'' then
                  Some (Inl (runtime_error ''Mismatched parentheses in function call''), p4)
                else
                  (case fs name of
                     None \<Rightarrow> Some (Inl (runtime_error (''Unknown function: '' @ name)), p4 + 1)
                   | Some f \<Rightarrow> Some (f arg, p4 + 1)))
         else
           (case cs name of
              Some c \<Rightarrow> Some (Inr c, p2)
            | None \<Rightarrow> Some (Inl (runtime_error (''Unknown identifier: '' @ name)), p2)))
      else
        (case parse_number m s p0 of
           (Inl e, p1) \<Rightarrow> Some (Inl e, p1)
         | (Inr result, p1) \<Rightarrow>
             let p2 = skip_whitespace s p1 in
             if p2 < length s \<and> s ! p2 = CHR ''^'' then
               (case run_factor m fs cs s (p2 + 1) of
                  None \<Rightarrow> None
                | Some (Inl e, p3) \<Rightarrow> Some (Inl e, p3)
                | Some (Inr exponent, p3) \<Rightarrow> Some (Inr (sc_power m result exponent), p3))
             else Some (Inr result, p2)))"
  by (subst run_factor_def) (simp only: depth_bound_Suc parse_factor.simps(2) pred_fuel)


lemma evaluate_run:
  "evaluate m P e =
     (case run_expression m (m_functions P) (m_constants P) e 0 of
        None \<Rightarrow> None
      | Some (out, p) \<Rightarrow> Some (out, P\<lparr>m_input := e, m_pos := p\<rparr>))"
  by (simp add: evaluate_def run_expression_def split: option.splits)

section \<open>Scanning a text given by its parts\<close>

lemma skip_whitespace_append:
  "skip_whitespace (pre @ rest) (length pre) = length pre + length (takeWhile isspace rest)"
proof (induction rest arbitrary: pre)
  case Nil
  show ?case by (subst skip_whitespace.simps) simp
next
  case (Cons c rest)
  show ?case
  proof (cases "isspace c")
    case True
    have "skip_whitespace (pre @ c # rest) (length pre) = skip_whitespace ((pre @ [c]) @ rest) (length (pre @ [c]))"
      using True by (subst skip_whitespace.simps) simp
    also have "\<dots> = length (pre @ [c]) + length (takeWhile isspace rest)"
      by (rule Cons.IH)
    finally show ?thesis using True by simp
  next
    case False
    then show ?thesis by (subst skip_whitespace.simps) simp
  qed
qed

lemma scan_digits_append:
  "scan_digits (pre @ rest) (length pre) = length pre + length (takeWhile isdigit rest)"
proof (induction rest arbitrary: pre)
  case Nil
  show ?case by (subst scan_digits.simps) simp
next
  case (Cons c rest)
  show ?case
  proof (cases "isdigit c")
    case True
    have "scan_digits (pre @ c # rest) (length pre) = scan_digits ((pre @ [c]) @ rest) (length (pre @ [c]))"
      using True by (subst scan_digits.simps) simp
    also have "\<dots> = length (pre @ [c]) + length (takeWhile isdigit rest)"
      by (rule Cons.IH)
    finally show ?thesis using True by simp
  next
    case False
    then show ?thesis by (subst scan_digits.simps) simp
  qed
qed

lemma isdigit_not_others:
  "isdigit c \<Longrightarrow> \<not> isspace c \<and> \<not> isalpha c \<and> c \<noteq> CHR ''.'' \<and> c \<noteq> CHR ''+'' \<and> c \<noteq> CHR ''-''
     \<and> c \<noteq> CHR ''('' \<and> c \<noteq> CHR '')'' \<and> c \<noteq> CHR ''^'' \<and> c \<noteq> CHR ''*'' \<and> c \<noteq> CHR ''/'' \<and> c \<noteq> CHR ''%''
     \<and> c \<noteq> CHR ''e'' \<and> c \<noteq> CHR ''E'' \<and> c \<noteq> CHR ''_''"
  by (auto simp: isdigit_def isspace_def isalpha_def Let_def)

lemma isspace_not_others:
  "isspace c \<Longrightarrow> \<not> isdigit c \<and> \<not> isalpha c \<and> c \<noteq> CHR ''.'' \<and> c \<noteq> CHR ''+'' \<and> c \<noteq> CHR ''-''
     \<and> c \<noteq> CHR ''('' \<and> c \<noteq> CHR '')'' \<and> c \<noteq> CHR ''^'' \<and> c \<noteq> CHR ''*'' \<and> c \<noteq> CHR ''/'' \<and> c \<noteq> CHR ''%''
     \<and> c \<noteq> CHR ''e'' \<and> c \<noteq> CHR ''E'' \<and> c \<noteq> CHR ''_''"
  by (auto simp: isdigit_def isspace_def isalpha_def Let_def)

lemma special_chars [simp]:
  "\<not> isspace CHR ''.''" "\<not> isspace CHR ''+''" "\<not> isspace CHR ''-''" "\<not> isspace CHR ''*''"
  "\<not> isspace CHR ''/''" "\<not> isspace CHR ''%''" "\<not> isspace CHR ''(''" "\<not> isspace CHR '')''"
  "\<not> isspace CHR ''^''"
  "\<not> isalpha CHR ''.''" "\<not> isalpha CHR ''+''" "\<not> isalpha CHR ''-''" "\<not> isalpha CHR ''*''"
  "\<not> isalpha CHR ''/''" "\<not> isalpha CHR ''%''" "\<not> isalpha CHR ''(''" "\<not> isalpha CHR '')''"
  "\<not> isalpha CHR ''^''"
  "\<not> isdigit CHR ''.''" "\<not> isdigit CHR ''+''" "\<not> isdigit CHR ''-''" "\<not> isdigit CHR ''*''"
  "\<not> isdigit CHR ''/''" "\<not> isdigit CHR ''%''" "\<not> isdigit CHR ''(''" "\<not> isdigit CHR '')''"
  "\<not> isdigit CHR ''^''"
  by (simp_all add: isspace_def isalpha_def isdigit_def)

lemma scan_mantissa_literal:
  assumes "list_all (\<lambda>c. isdigit c \<or> c = CHR ''.'') l"
    and "count_list l CHR ''.'' + (if h then 1 else 0) \<le> 1"
    and "rest = [] \<or> \<not> (isdigit (hd rest) \<or> hd rest = CHR ''.'')"
  shows "scan_mantissa (pre @ l @ rest) (length pre) h = (Inr (), length pre + length l)"
  using assms
proof (induction l arbitrary: pre h)
  case Nil
  then show ?case by (subst scan_mantissa.simps) (cases rest; simp)
next
  case (Cons c l)
  let ?s = "pre @ (c # l) @ rest"
  have s: "?s = (pre @ [c]) @ l @ rest" by simp
  show ?case
  proof (cases "c = CHR ''.''")
    case True
    with Cons.prems(2) have h: "\<not> h" and cnt: "count_list l CHR ''.'' + (if True then 1 else 0) \<le> 1"
      by (auto split: if_splits)
    have "scan_mantissa ?s (length pre) h = scan_mantissa ((pre @ [c]) @ l @ rest) (length (pre @ [c])) True"
      using True h by (subst scan_mantissa.simps) simp
    also have "\<dots> = (Inr (), length (pre @ [c]) + length l)"
      using Cons.prems(1,3) cnt by (intro Cons.IH) auto
    finally show ?thesis by simp
  next
    case False
    with Cons.prems(1) have d: "isdigit c" by simp
    from False Cons.prems(2) have cnt: "count_list l CHR ''.'' + (if h then 1 else 0) \<le> 1" by simp
    have "scan_mantissa ?s (length pre) h = scan_mantissa ((pre @ [c]) @ l @ rest) (length (pre @ [c])) h"
      using False d by (subst scan_mantissa.simps) simp
    also have "\<dots> = (Inr (), length (pre @ [c]) + length l)"
      using Cons.prems(1,3) cnt by (intro Cons.IH) auto
    finally show ?thesis by simp
  qed
qed

lemma exp_end_marker:
  assumes c: "c = CHR ''e'' \<or> c = CHR ''E''"
    and sg: "sg = [] \<or> sg = ''+'' \<or> sg = ''-''"
    and d: "list_all isdigit d"
    and rest: "rest = [] \<or> (\<not> isdigit (hd rest) \<and>
                 (sg = [] \<and> d = [] \<longrightarrow> hd rest \<noteq> CHR ''+'' \<and> hd rest \<noteq> CHR ''-''))"
  shows "exp_end (pre @ c # sg @ d @ rest) (length pre) = length pre + 1 + length sg + length d"
proof -
  define s where "s = pre @ c # sg @ d @ rest"
  define q1 where "q1 = length pre + 1"
  define q2 where "q2 = length pre + 1 + length sg"
  have c0: "s ! length pre = c" "length pre < length s"
    by (simp_all add: s_def)
  from rest have "takeWhile isdigit rest = []" by (cases rest) auto
  with d have tw: "takeWhile isdigit (d @ rest) = d"
    by (simp add: list_all_iff takeWhile_append2)
  have sd: "scan_digits s q2 = q2 + length d"
    using scan_digits_append[of "pre @ c # sg" "d @ rest"] tw by (simp add: s_def q2_def)
  have sign: "(if q1 < length s \<and> (s ! q1 = CHR ''+'' \<or> s ! q1 = CHR ''-'') then q1 + 1 else q1) = q2"
  proof (cases "sg = []")
    case True
    have "\<not> (q1 < length s \<and> (s ! q1 = CHR ''+'' \<or> s ! q1 = CHR ''-''))"
    proof (cases "d @ rest")
      case Nil
      with True show ?thesis by (simp add: s_def q1_def)
    next
      case (Cons x xs)
      have x: "s ! q1 = x"
        using nth_append_length[of "pre @ [c]" x xs] True Cons by (simp add: s_def q1_def)
      have "x \<noteq> CHR ''+'' \<and> x \<noteq> CHR ''-''"
      proof (cases d)
        case Nil
        with Cons rest True show ?thesis by auto
      next
        case (Cons y ys)
        with \<open>d @ rest = x # xs\<close> d have "isdigit x" by simp
        from isdigit_not_others[OF this] show ?thesis by simp
      qed
      with x show ?thesis by simp
    qed
    with True show ?thesis by (simp add: q1_def q2_def)
  next
    case False
    with sg obtain g where g: "sg = [g]" "g = CHR ''+'' \<or> g = CHR ''-''" by auto
    have "s ! q1 = g" "q1 < length s"
      using nth_append_length[of "pre @ [c]" g "d @ rest"] g by (simp_all add: s_def q1_def)
    with g show ?thesis by (auto simp: q1_def q2_def)
  qed
  have "exp_end s (length pre) = q2 + length d"
    using c c0 unfolding exp_end_def Let_def q1_def[symmetric] by (simp add: sign sd q1_def[symmetric])
  then show ?thesis by (simp add: s_def q2_def)
qed

lemma exp_end_none:
  assumes "rest = [] \<or> \<not> (hd rest = CHR ''e'' \<or> hd rest = CHR ''E'')"
  shows "exp_end (pre @ rest) (length pre) = length pre"
proof (cases rest)
  case Nil
  then show ?thesis by (simp add: exp_end_def)
next
  case (Cons r rs)
  with assms show ?thesis by (simp add: exp_end_def)
qed

lemma exp_end_exponent:
  assumes "exponent_ok ex"
    and "rest = [] \<or> \<not> (isdigit (hd rest) \<or> hd rest = CHR ''e'' \<or> hd rest = CHR ''E'')"
  shows "exp_end (pre @ ex @ rest) (length pre) = length pre + length ex"
proof (cases ex)
  case Nil
  with exp_end_none[of rest pre] assms(2) show ?thesis by auto
next
  case (Cons c t)
  define sg where "sg = (if t \<noteq> [] \<and> (hd t = CHR ''+'' \<or> hd t = CHR ''-'') then [hd t] else [])"
  define d where "d = (if t \<noteq> [] \<and> (hd t = CHR ''+'' \<or> hd t = CHR ''-'') then tl t else t)"
  have t: "t = sg @ d" by (cases t) (auto simp: sg_def d_def)
  from assms(1) Cons have c: "c = CHR ''e'' \<or> c = CHR ''E''" and d: "d \<noteq> []" "list_all isdigit d"
    by (simp_all add: d_def Let_def)
  have sg: "sg = [] \<or> sg = ''+'' \<or> sg = ''-''" by (auto simp: sg_def)
  from exp_end_marker[OF c sg d(2), of rest pre] assms(2) d(1)
  show ?thesis using Cons t by auto
qed

lemma mantissa_not_others:
  "mantissa_char c \<Longrightarrow> \<not> isspace c \<and> \<not> isalpha c \<and> c \<noteq> CHR ''+'' \<and> c \<noteq> CHR ''-''
     \<and> c \<noteq> CHR ''('' \<and> c \<noteq> CHR '')'' \<and> c \<noteq> CHR ''^'' \<and> c \<noteq> CHR ''e'' \<and> c \<noteq> CHR ''E''"
proof (cases "c = CHR ''.''")
  case True
  then show ?thesis by simp
next
  case False
  assume "mantissa_char c"
  with False have "isdigit c" by (simp add: mantissa_char_def)
  from isdigit_not_others[OF this] show ?thesis by simp
qed

lemma literal_parts:
  assumes "literal l"
  obtains mant ex where "l = mant @ ex" and "mant \<noteq> []" and "list_all mantissa_char mant"
    and "count_list mant CHR ''.'' \<le> 1" and "exponent_ok ex"
    and "ex = [] \<or> \<not> mantissa_char (hd ex)"
proof -
  let ?mant = "takeWhile mantissa_char l" and ?ex = "dropWhile mantissa_char l"
  have 1: "l = ?mant @ ?ex" by simp
  have 2: "list_all mantissa_char ?mant" by (simp add: list_all_iff) (meson set_takeWhileD)
  have 3: "?ex = [] \<or> \<not> mantissa_char (hd ?ex)" using hd_dropWhile[of mantissa_char l] by auto
  from assms have "?mant \<noteq> []" "count_list ?mant CHR ''.'' \<le> 1" "exponent_ok ?ex"
    by (simp_all add: literal_def Let_def)
  with 1 2 3 that show thesis by blast
qed

lemma parse_number_literal:
  assumes "literal l"
    and "rest = [] \<or> \<not> (isdigit (hd rest) \<or> hd rest = CHR ''.'' \<or> hd rest = CHR ''e'' \<or> hd rest = CHR ''E'')"
  shows "parse_number m (pre @ l @ rest) (length pre) =
           (case stod m l of
              None \<Rightarrow> (Inl (runtime_error (''Invalid number: '' @ l)), length pre + length l)
            | Some v \<Rightarrow> (Inr v, length pre + length l))"
proof -
  from assms(1) obtain mant ex where l: "l = mant @ ex" and mant: "mant \<noteq> []"
    "list_all mantissa_char mant" "count_list mant CHR ''.'' \<le> 1" and ex: "exponent_ok ex"
    "ex = [] \<or> \<not> mantissa_char (hd ex)"
    by (rule literal_parts)
  define s where "s = pre @ l @ rest"
  define p1 where "p1 = length pre + length mant"
  define p2 where "p2 = length pre + length l"
  from mant obtain c mt where mc: "mant = c # mt" and c: "mantissa_char c" by (cases mant) auto
  from mantissa_not_others[OF c] have nsp: "\<not> isspace c" by simp
  have p0: "skip_whitespace s (length pre) = length pre"
    using skip_whitespace_append[of pre "l @ rest"] nsp l mc by (simp add: s_def)
  have stop: "ex @ rest = [] \<or> \<not> (isdigit (hd (ex @ rest)) \<or> hd (ex @ rest) = CHR ''.'')"
    using ex(2) assms(2) by (cases ex) (auto simp: mantissa_char_def)
  have sm: "scan_mantissa s (length pre) False = (Inr (), p1)"
    using scan_mantissa_literal[of mant False "ex @ rest" pre] mant stop
    by (simp add: s_def p1_def l mantissa_char_def[abs_def])
  have ee: "exp_end s p1 = p2"
    using exp_end_exponent[OF ex(1), of rest "pre @ mant"] assms(2)
    by (auto simp: s_def p1_def p2_def l)
  have sub: "substr s (length pre) (p2 - length pre) = l" by (simp add: substr_def s_def p2_def)
  have "length pre \<noteq> p2" "length pre < length s" using l mc by (simp_all add: p2_def s_def)
  then have "parse_number m s (length pre) =
           (case stod m l of
              None \<Rightarrow> (Inl (runtime_error (''Invalid number: '' @ l)), p2)
            | Some v \<Rightarrow> (Inr v, p2))"
    by (simp add: parse_number_alt p0 sm ee sub Let_def split: option.splits)
  then show ?thesis unfolding s_def p2_def .
qed

lemma continues_Inr [simp]: "continues r (Inr v) k = (r = k v)"
  by (simp add: continues_def)

lemma continues_Inl [simp]: "continues r (Inl x) k = (\<exists>p. r = Some (Inl x, p))"
  by (simp add: continues_def)

lemma continues_bindI:
  assumes "continues r val (\<lambda>v. Some (Inr v, p))"
  shows "continues (case r of None \<Rightarrow> None | Some (Inl e, q) \<Rightarrow> Some (Inl e, q) | Some (Inr v, q) \<Rightarrow> K v q)
           val (\<lambda>v. K v p)"
  using assms by (cases val) auto

lemma continues_then:
  assumes "continues r va k"
    and "\<And>x. va = Inr x \<Longrightarrow> continues (k x) (f x) k'"
  shows "continues r (case va of Inl e \<Rightarrow> Inl e | Inr x \<Rightarrow> f x) k'"
  using assms by (cases va) auto

lemma continues_final:
  assumes "continues r val k"
    and "\<And>v. val = Inr v \<Longrightarrow> k v = k' v"
  shows "continues r val k'"
  using assms by (cases val) auto

lemma nth_after: "(pre @ c # rest) ! length pre = c"
  by simp

lemma takeWhile_blank_append:
  "blank ws \<Longrightarrow> takeWhile isspace (ws @ rest) = ws @ takeWhile isspace rest"
  by (simp add: blank_def takeWhile_append2 list_all_iff)

lemma ahead_blank_append: "blank ws \<Longrightarrow> ahead (ws @ rest) = ahead rest"
  by (simp add: blank_def ahead_def dropWhile_append2 list_all_iff)

lemma ahead_nonspace [simp]: "\<not> isspace c \<Longrightarrow> ahead (c # rest) = c # rest"
  by (simp add: ahead_def)

lemma ahead_Nil [simp]: "ahead [] = []"
  by (simp add: ahead_def)

text \<open>Where the loops and the power check stop: at the first character that is not blank.\<close>

lemma at_ahead:
  "ahead rest \<noteq> [] \<Longrightarrow>
     length pre + length (takeWhile isspace rest) < length (pre @ rest) \<and>
     (pre @ rest) ! (length pre + length (takeWhile isspace rest)) = hd (ahead rest) \<and>
     \<not> isspace (hd (ahead rest))"
proof -
  assume a: "ahead rest \<noteq> []"
  have split: "rest = takeWhile isspace rest @ ahead rest" by (simp add: ahead_def)
  from a obtain c cs where c: "ahead rest = c # cs" by (cases "ahead rest") auto
  have "(pre @ rest) = (pre @ takeWhile isspace rest) @ c # cs" using split c by simp
  then have n: "(pre @ rest) ! (length pre + length (takeWhile isspace rest)) = c"
    using nth_append_length[of "pre @ takeWhile isspace rest" c cs] by simp
  have "length rest = length (takeWhile isspace rest) + length (ahead rest)"
    by (subst split) (simp only: length_append)
  with c have "length (takeWhile isspace rest) < length rest" by simp
  moreover have "\<not> isspace c"
    using c hd_dropWhile[of isspace rest] by (auto simp: ahead_def)
  ultimately show ?thesis using n c by simp
qed

lemma at_ahead_Nil:
  "ahead rest = [] \<Longrightarrow> length pre + length (takeWhile isspace rest) = length (pre @ rest)"
proof -
  assume "ahead rest = []"
  then have "takeWhile isspace rest = rest"
    by (metis ahead_def append.right_neutral takeWhile_dropWhile_id)
  then have "length (takeWhile isspace rest) = length rest" by (rule arg_cong)
  then show ?thesis by (simp only: length_append)
qed

lemma skip_at_ahead:
  "skip_whitespace (pre @ rest) (length pre + length (takeWhile isspace rest)) =
     length pre + length (takeWhile isspace rest)"
proof -
  have "pre @ rest = (pre @ takeWhile isspace rest) @ dropWhile isspace rest" by simp
  then have "skip_whitespace (pre @ rest) (length (pre @ takeWhile isspace rest)) =
     length (pre @ takeWhile isspace rest) + length (takeWhile isspace (dropWhile isspace rest))"
    using skip_whitespace_append[of "pre @ takeWhile isspace rest" "dropWhile isspace rest"] by simp
  moreover have "takeWhile isspace (dropWhile isspace rest) = []"
    by (metis (full_types) dropWhile_eq_Nil_conv hd_dropWhile list.collapse takeWhile.simps(2) takeWhile_eq_Nil_iff)
  ultimately show ?thesis by simp
qed

lemma run_term_loop_exit:
  assumes "ahead rest = [] \<or> \<not> (hd (ahead rest) = CHR ''*'' \<or> hd (ahead rest) = CHR ''/'' \<or> hd (ahead rest) = CHR ''%'')"
  shows "run_term_loop m fs cs (pre @ rest) v (length pre + length (takeWhile isspace rest)) =
           Some (Inr v, length pre + length (takeWhile isspace rest))"
proof (cases "ahead rest = []")
  case True
  from at_ahead_Nil[OF this, of pre] show ?thesis
    by (subst run_term_loop_eq) simp
next
  case False
  from at_ahead[OF False, of pre] assms False skip_at_ahead[of pre rest] show ?thesis
    by (subst run_term_loop_eq) (simp add: Let_def)
qed

lemma run_expression_loop_exit:
  assumes "ahead rest = [] \<or> \<not> (hd (ahead rest) = CHR ''+'' \<or> hd (ahead rest) = CHR ''-'')"
  shows "run_expression_loop m fs cs (pre @ rest) v (length pre + length (takeWhile isspace rest)) =
           Some (Inr v, length pre + length (takeWhile isspace rest))"
proof (cases "ahead rest = []")
  case True
  from at_ahead_Nil[OF this, of pre] show ?thesis
    by (subst run_expression_loop_eq) simp
next
  case False
  from at_ahead[OF False, of pre] assms False skip_at_ahead[of pre rest] show ?thesis
    by (subst run_expression_loop_eq) (simp add: Let_def)
qed

text \<open>The power check after a literal or a closing parenthesis, when no \<open>^\<close> is ahead.\<close>

lemma no_power_ahead:
  assumes "ahead rest = [] \<or> hd (ahead rest) \<noteq> CHR ''^''"
  shows "skip_whitespace (pre @ rest) (length pre) = length pre + length (takeWhile isspace rest) \<and>
         \<not> (length pre + length (takeWhile isspace rest) < length (pre @ rest) \<and>
            (pre @ rest) ! (length pre + length (takeWhile isspace rest)) = CHR ''^'')"
proof (cases "ahead rest = []")
  case True
  from at_ahead_Nil[OF this, of pre] show ?thesis by (simp add: skip_whitespace_append)
next
  case False
  from at_ahead[OF False, of pre] assms False show ?thesis by (simp add: skip_whitespace_append)
qed

section \<open>The parser agrees with the reference reading\<close>

text \<open>The functions of StandardCalculator compute what the operators mean.\<close>

lemma apply_op_calc [simp]:
  "apply_op m Op_add x y = Inr (sc_add m x y)"
  "apply_op m Op_sub x y = Inr (sc_subtract m x y)"
  "apply_op m Op_mul x y = Inr (sc_multiply m x y)"
  "apply_op m Op_div x y = sc_divide m x y"
  "apply_op m Op_mod x y = sc_modulo m x y"
  by (simp_all add: apply_op.simps sc_add_def sc_subtract_def sc_multiply_def sc_divide_def
      sc_modulo_def)

lemma literal_hd:
  assumes "literal l"
  shows "l \<noteq> [] \<and> \<not> isspace (hd l) \<and> \<not> isalpha (hd l) \<and> hd l \<noteq> CHR ''-'' \<and> hd l \<noteq> CHR ''+''
           \<and> hd l \<noteq> CHR ''(''"
proof -
  from assms obtain mant ex where l: "l = mant @ ex" and mant: "mant \<noteq> []"
    "list_all mantissa_char mant"
    by (rule literal_parts)
  from mant obtain c mt where mc: "mant = c # mt" and c: "mantissa_char c" by (cases mant) auto
  from mantissa_not_others[OF c] show ?thesis using l mc by simp
qed

lemma skip_blank:
  assumes "blank ws" and "rest = [] \<or> \<not> isspace (hd rest)"
  shows "skip_whitespace (pre @ ws @ rest) (length pre) = length pre + length ws"
proof -
  from assms(2) have "takeWhile isspace rest = []" by (cases rest) auto
  with assms(1) show ?thesis
    using skip_whitespace_append[of pre "ws @ rest"] by (simp add: takeWhile_blank_append)
qed

lemma stops_after_blank:
  assumes "blank ws" and "\<not> isspace c" and "\<not> isdigit c" and "c \<noteq> CHR ''.''"
    and "c \<noteq> CHR ''e''" and "c \<noteq> CHR ''E''"
  shows "\<not> (isdigit (hd (ws @ c # rest)) \<or> hd (ws @ c # rest) = CHR ''.'' \<or>
            hd (ws @ c # rest) = CHR ''e'' \<or> hd (ws @ c # rest) = CHR ''E'')"
    and "ahead (ws @ c # rest) = c # rest"
    and "takeWhile isspace (ws @ c # rest) = ws"
proof -
  show "\<not> (isdigit (hd (ws @ c # rest)) \<or> hd (ws @ c # rest) = CHR ''.'' \<or>
            hd (ws @ c # rest) = CHR ''e'' \<or> hd (ws @ c # rest) = CHR ''E'')"
  proof (cases ws)
    case Nil
    with assms show ?thesis by simp
  next
    case (Cons w ws2)
    with assms(1) have "isspace w" by (simp add: blank_def)
    from isspace_not_others[OF this] Cons show ?thesis by simp
  qed
  show "ahead (ws @ c # rest) = c # rest"
    using assms(1,2) by (simp add: ahead_blank_append)
  show "takeWhile isspace (ws @ c # rest) = ws"
    using assms(1,2) by (simp add: takeWhile_blank_append)
qed

lemma power_check_exit:
  assumes "ahead rest = [] \<or> hd (ahead rest) \<noteq> CHR ''^''"
  shows "power_check m fs cs (pre @ rest) v (length pre) =
           Some (Inr v, length pre + length (takeWhile isspace rest))"
  using no_power_ahead[OF assms, of pre] by (auto simp: power_check_def Let_def)

lemma power_check_step:
  assumes "blank ws"
  shows "power_check m fs cs (pre @ ws @ CHR ''^'' # tail) v (length pre) =
           (case run_factor m fs cs (pre @ ws @ CHR ''^'' # tail) (Suc (length pre + length ws)) of
              None \<Rightarrow> None
            | Some (Inl e, p3) \<Rightarrow> Some (Inl e, p3)
            | Some (Inr exponent, p3) \<Rightarrow> Some (Inr (sc_power m v exponent), p3))"
proof -
  define s where "s = pre @ ws @ CHR ''^'' # tail"
  define q where "q = length pre + length ws"
  have sk: "skip_whitespace s (length pre) = q"
    using skip_blank[OF assms, of "CHR ''^'' # tail" pre] by (simp add: s_def q_def)
  have cq: "s ! q = CHR ''^''" "q < length s"
    using nth_append_length[of "pre @ ws" "CHR ''^''" tail] by (simp_all add: s_def q_def)
  have "power_check m fs cs s v (length pre) =
           (case run_factor m fs cs s (Suc q) of
              None \<Rightarrow> None
            | Some (Inl e, p3) \<Rightarrow> Some (Inl e, p3)
            | Some (Inr exponent, p3) \<Rightarrow> Some (Inr (sc_power m v exponent), p3))"
    using cq by (simp add: power_check_def Let_def sk)
  then show ?thesis unfolding s_def q_def .
qed

lemma base_Num:
  assumes ws: "blank ws" and l: "literal l" and st: "literal_ends rest"
  shows "continues (run_factor m fs cs (pre @ unparse (Num ws l) @ rest) (length pre))
           (tree_value m (Num ws l))
           (\<lambda>v. power_check m fs cs (pre @ unparse (Num ws l) @ rest) v
                   (length pre + length (unparse (Num ws l))))"
proof -
  define s where "s = pre @ ws @ l @ rest"
  define p0 where "p0 = length pre + length ws"
  define p1 where "p1 = length pre + length ws + length l"
  note h = literal_hd[OF l]
  from h obtain c l' where lc: "l = c # l'" by (cases l) auto
  have p0: "skip_whitespace s (length pre) = p0"
    using skip_blank[OF ws, of "l @ rest" pre] h lc by (simp add: s_def p0_def)
  have c0: "s ! p0 = hd l"
    using nth_append_length[of "pre @ ws" c "l' @ rest"] lc by (simp add: s_def p0_def)
  have lt: "p0 < length s" using lc by (simp add: s_def p0_def)
  have pn: "parse_number m s p0 =
           (case stod m l of
              None \<Rightarrow> (Inl (runtime_error (''Invalid number: '' @ l)), p1)
            | Some v \<Rightarrow> (Inr v, p1))"
    using parse_number_literal[OF l, of rest m "pre @ ws"] st
    by (simp add: literal_ends_def add.assoc s_def p0_def p1_def cong: option.case_cong)
  have "continues (run_factor m fs cs s (length pre)) (tree_value m (Num ws l))
          (\<lambda>v. power_check m fs cs s v p1)"
    using h lt
    by (subst run_factor_eq) (auto simp: Let_def p0 c0 pn power_check_def split: option.splits)
  then show ?thesis by (simp add: add.assoc s_def p1_def)
qed

lemma base_Paren:
  assumes ws: "blank ws" and ws': "blank ws'"
    and EF: "\<And>pre rest. stops_expression rest \<Longrightarrow>
       continues (run_expression m fs cs (pre @ unparse e @ rest) (length pre)) (tree_value m e)
         (\<lambda>v. Some (Inr v, length pre + length (unparse e) + length (takeWhile isspace rest)))"
  shows "continues (run_factor m fs cs (pre @ unparse (Paren ws e ws') @ rest) (length pre))
           (tree_value m (Paren ws e ws'))
           (\<lambda>v. power_check m fs cs (pre @ unparse (Paren ws e ws') @ rest) v
                   (length pre + length (unparse (Paren ws e ws'))))"
proof -
  let ?u = "unparse e"
  define s where "s = pre @ ws @ CHR ''('' # ?u @ ws' @ CHR '')'' # rest"
  define p0 where "p0 = length pre + length ws"
  define p1 where "p1 = length pre + length ws + 1 + length ?u + length ws'"
  have p0: "skip_whitespace s (length pre) = p0"
    using skip_blank[OF ws, of "CHR ''('' # ?u @ ws' @ CHR '')'' # rest" pre]
    by (simp add: s_def p0_def)
  have c0: "s ! p0 = CHR ''(''"
    using nth_append_length[of "pre @ ws" "CHR ''(''" "?u @ ws' @ CHR '')'' # rest"]
    by (simp add: s_def p0_def)
  have lt: "p0 < length s" by (simp add: s_def p0_def)
  have se: "stops_expression (ws' @ CHR '')'' # rest)"
    using stops_after_blank[OF ws', of "CHR '')''" rest]
    by (simp add: stops_expression_def stops_term_def stops_factor_def literal_ends_def)
  have tw: "length (takeWhile isspace (ws' @ CHR '')'' # rest)) = length ws'"
    using ws' by (simp add: takeWhile_blank_append)
  from EF[OF se, of "pre @ ws @ ''(''"] tw
  have inner: "continues (run_expression m fs cs s (Suc p0)) (tree_value m e) (\<lambda>v. Some (Inr v, p1))"
    by (simp add: add.assoc s_def p0_def p1_def)
  have p2: "skip_whitespace s p1 = p1"
    using skip_whitespace_append[of "pre @ ws @ CHR ''('' # ?u @ ws'" "CHR '')'' # rest"]
    by (simp add: add.assoc s_def p1_def)
  have c2: "s ! p1 = CHR '')''"
    using nth_append_length[of "pre @ ws @ CHR ''('' # ?u @ ws'" "CHR '')''" rest]
    by (simp add: add.assoc s_def p1_def)
  have lt2: "p1 < length s" by (simp add: s_def p1_def)
  define K where "K = (\<lambda>(result::'a) p1.
             let p2 = skip_whitespace s p1 in
             if p2 \<ge> length s \<or> s ! p2 \<noteq> CHR '')'' then
               Some (Inl (runtime_error ''Mismatched parentheses''), p2)
             else
               let p3 = skip_whitespace s (p2 + 1) in
               if p3 < length s \<and> s ! p3 = CHR ''^'' then
                 (case run_factor m fs cs s (p3 + 1) of
                    None \<Rightarrow> None
                  | Some (Inl e, p4) \<Rightarrow> Some (Inl e, p4)
                  | Some (Inr exponent, p4) \<Rightarrow> Some (Inr (sc_power m result exponent), p4))
               else Some (Inr result, p3))"
  have body: "run_factor m fs cs s (length pre) =
      (case run_expression m fs cs s (Suc p0) of
         None \<Rightarrow> None | Some (Inl e, q) \<Rightarrow> Some (Inl e, q) | Some (Inr v, q) \<Rightarrow> K v q)"
    using lt unfolding K_def by (subst run_factor_eq) (simp add: Let_def p0 c0)
  have KK: "K v p1 = power_check m fs cs s v (Suc p1)" for v
    using lt2 by (simp add: K_def Let_def p2 c2 power_check_def)
  have "continues (run_factor m fs cs s (length pre)) (tree_value m e)
          (\<lambda>v. power_check m fs cs s v (Suc p1))"
    unfolding body by (rule continues_final[OF continues_bindI[OF inner, of K]]) (rule KK)
  then show ?thesis by (simp add: add.assoc s_def p1_def)
qed

lemma factor_of_base:
  assumes "continues (run_factor m fs cs (pre @ u @ rest) (length pre)) val
             (\<lambda>v. power_check m fs cs (pre @ u @ rest) v (length pre + length u))"
    and "ahead rest = [] \<or> hd (ahead rest) \<noteq> CHR ''^''"
  shows "continues (run_factor m fs cs (pre @ u @ rest) (length pre)) val
             (\<lambda>v. Some (Inr v, length pre + length u + length (takeWhile isspace rest)))"
proof (rule continues_final[OF assms(1)])
  fix v
  from power_check_exit[OF assms(2), of m fs cs "pre @ u" v]
  show "power_check m fs cs (pre @ u @ rest) v (length pre + length u) =
        Some (Inr v, length pre + length u + length (takeWhile isspace rest))"
    by simp
qed

lemma sign_char_plain:
  "\<not> isspace (sign_char u)" "sign_char u = CHR ''-'' \<or> sign_char u = CHR ''+''"
  "(sign_char u = CHR ''-'') = (u = Op_neg)"
  by (cases u; simp)+

lemma factor_Sign:
  assumes ws: "blank ws" and st: "stops_factor rest"
    and Ff: "\<And>pre rest. stops_factor rest \<Longrightarrow>
       continues (run_factor m fs cs (pre @ unparse f @ rest) (length pre)) (tree_value m f)
         (\<lambda>v. Some (Inr v, length pre + length (unparse f) + length (takeWhile isspace rest)))"
  shows "continues (run_factor m fs cs (pre @ unparse (Sign ws u f) @ rest) (length pre))
           (tree_value m (Sign ws u f))
           (\<lambda>v. Some (Inr v, length pre + length (unparse (Sign ws u f)) + length (takeWhile isspace rest)))"
proof -
  let ?c = "sign_char u"
  define s where "s = pre @ ws @ ?c # unparse f @ rest"
  define p0 where "p0 = length pre + length ws"
  define e1 where "e1 = p0 + 1 + length (unparse f) + length (takeWhile isspace rest)"
  have sk: "skip_whitespace s (length pre) = p0"
    using skip_blank[OF ws, of "?c # unparse f @ rest" pre] sign_char_plain(1)[of u]
    by (simp add: s_def p0_def)
  have c0: "s ! p0 = ?c" "p0 < length s"
    using nth_append_length[of "pre @ ws" ?c "unparse f @ rest"] by (simp_all add: s_def p0_def)
  from Ff[OF st, of "pre @ ws @ [?c]"]
  have inner: "continues (run_factor m fs cs s (Suc p0)) (tree_value m f) (\<lambda>v. Some (Inr v, e1))"
    by (simp add: s_def p0_def e1_def add.assoc)
  define K where "K = (\<lambda>(val::'a) (p1::nat).
      Some (Inr (if ?c = CHR ''-'' then dneg m val else val) :: exn + 'a, p1))"
  have body: "run_factor m fs cs s (length pre) =
      (case run_factor m fs cs s (Suc p0) of
         None \<Rightarrow> None | Some (Inl e, q) \<Rightarrow> Some (Inl e, q) | Some (Inr v, q) \<Rightarrow> K v q)"
    using c0(2) sign_char_plain(2)[of u] unfolding K_def
    by (subst run_factor_eq) (simp add: Let_def sk c0(1))
  have "continues (run_factor m fs cs s (length pre)) (tree_value m (Sign ws u f))
          (\<lambda>v. Some (Inr v, e1))"
    unfolding body tree_value.simps
    by (rule continues_then[OF continues_bindI[OF inner, of K]])
       (simp add: K_def sign_char_plain(3))
  then show ?thesis by (simp add: s_def e1_def p0_def add.assoc)
qed

lemma factor_Pow:
  assumes ws: "blank ws" and st: "stops_factor rest"
    and Bb: "\<And>pre rest. literal_ends rest \<Longrightarrow>
       continues (run_factor m fs cs (pre @ unparse b @ rest) (length pre)) (tree_value m b)
         (\<lambda>v. power_check m fs cs (pre @ unparse b @ rest) v (length pre + length (unparse b)))"
    and Ff: "\<And>pre rest. stops_factor rest \<Longrightarrow>
       continues (run_factor m fs cs (pre @ unparse f @ rest) (length pre)) (tree_value m f)
         (\<lambda>v. Some (Inr v, length pre + length (unparse f) + length (takeWhile isspace rest)))"
  shows "continues (run_factor m fs cs (pre @ unparse (Pow b ws f) @ rest) (length pre))
           (tree_value m (Pow b ws f))
           (\<lambda>v. Some (Inr v, length pre + length (unparse (Pow b ws f)) + length (takeWhile isspace rest)))"
proof -
  define s where "s = pre @ unparse b @ ws @ CHR ''^'' # unparse f @ rest"
  define pb where "pb = length pre + length (unparse b)"
  define q where "q = length pre + length (unparse b) + length ws"
  define e1 where "e1 = q + 1 + length (unparse f) + length (takeWhile isspace rest)"
  have le: "literal_ends (ws @ CHR ''^'' # unparse f @ rest)"
    using stops_after_blank(1)[OF ws, of "CHR ''^''" "unparse f @ rest"]
    by (simp add: literal_ends_def)
  from Bb[OF le, of pre]
  have B: "continues (run_factor m fs cs s (length pre)) (tree_value m b)
             (\<lambda>v. power_check m fs cs s v pb)"
    by (simp add: s_def pb_def)
  from Ff[OF st, of "pre @ unparse b @ ws @ ''^''"]
  have F: "continues (run_factor m fs cs s (Suc q)) (tree_value m f) (\<lambda>v. Some (Inr v, e1))"
    by (simp add: s_def q_def e1_def add.assoc)
  define K where "K = (\<lambda>(x::'a) (y::'a) (p3::nat). Some (Inr (sc_power m x y) :: exn + 'a, p3))"
  have step: "power_check m fs cs s x pb =
      (case run_factor m fs cs s (Suc q) of
         None \<Rightarrow> None | Some (Inl e, p3) \<Rightarrow> Some (Inl e, p3) | Some (Inr y, p3) \<Rightarrow> K x y p3)" for x
    using power_check_step[OF ws, of m fs cs "pre @ unparse b" "unparse f @ rest" x]
    unfolding K_def by (simp add: s_def pb_def q_def add.assoc)
  have loop: "continues (power_check m fs cs s x pb)
      (case tree_value m f of Inl e \<Rightarrow> Inl e | Inr y \<Rightarrow> Inr (sc_power m x y))
      (\<lambda>v. Some (Inr v, e1))" for x
    unfolding step by (rule continues_then[OF continues_bindI[OF F, of "K x"]]) (simp add: K_def)
  have "continues (run_factor m fs cs s (length pre)) (tree_value m (Pow b ws f))
      (\<lambda>v. Some (Inr v, e1))"
    unfolding tree_value.simps by (rule continues_then[OF B]) (rule loop)
  then show ?thesis by (simp add: s_def e1_def q_def add.assoc)
qed

lemma term_of_factor:
  assumes "continues (run_factor m fs cs s pos) val (\<lambda>v. Some (Inr v, p))"
  shows "continues (run_term m fs cs s pos) val (\<lambda>v. run_term_loop m fs cs s v p)"
  by (subst run_term_eq) (rule continues_bindI[OF assms])

lemma expression_of_term:
  assumes "continues (run_term m fs cs s pos) val (\<lambda>v. Some (Inr v, p))"
  shows "continues (run_expression m fs cs s pos) val (\<lambda>v. run_expression_loop m fs cs s v p)"
  by (subst run_expression_eq) (rule continues_bindI[OF assms])

lemma term_final:
  assumes "continues (run_term m fs cs (pre @ u @ rest) (length pre)) val
             (\<lambda>v. run_term_loop m fs cs (pre @ u @ rest) v (length pre + length u + length (takeWhile isspace rest)))"
    and "stops_term rest"
  shows "continues (run_term m fs cs (pre @ u @ rest) (length pre)) val
             (\<lambda>v. Some (Inr v, length pre + length u + length (takeWhile isspace rest)))"
proof (rule continues_final[OF assms(1)])
  fix v
  from assms(2) have "ahead rest = [] \<or> \<not> (hd (ahead rest) = CHR ''*'' \<or> hd (ahead rest) = CHR ''/'' \<or> hd (ahead rest) = CHR ''%'')"
    by (simp add: stops_term_def)
  from run_term_loop_exit[OF this, of m fs cs "pre @ u" v]
  show "run_term_loop m fs cs (pre @ u @ rest) v (length pre + length u + length (takeWhile isspace rest)) =
        Some (Inr v, length pre + length u + length (takeWhile isspace rest))"
    by simp
qed

lemma expression_final:
  assumes "continues (run_expression m fs cs (pre @ u @ rest) (length pre)) val
             (\<lambda>v. run_expression_loop m fs cs (pre @ u @ rest) v (length pre + length u + length (takeWhile isspace rest)))"
    and "stops_expression rest"
  shows "continues (run_expression m fs cs (pre @ u @ rest) (length pre)) val
             (\<lambda>v. Some (Inr v, length pre + length u + length (takeWhile isspace rest)))"
proof (rule continues_final[OF assms(1)])
  fix v
  from assms(2) have "ahead rest = [] \<or> \<not> (hd (ahead rest) = CHR ''+'' \<or> hd (ahead rest) = CHR ''-'')"
    by (simp add: stops_expression_def)
  from run_expression_loop_exit[OF this, of m fs cs "pre @ u" v]
  show "run_expression_loop m fs cs (pre @ u @ rest) v (length pre + length u + length (takeWhile isspace rest)) =
        Some (Inr v, length pre + length u + length (takeWhile isspace rest))"
    by simp
qed

lemma op_char_plain:
  "\<not> isspace (op_char op)" "\<not> isdigit (op_char op)" "op_char op \<noteq> CHR ''.''"
  "op_char op \<noteq> CHR ''e''" "op_char op \<noteq> CHR ''E''" "op_char op \<noteq> CHR ''^''"
  by (cases op; simp add: isspace_def isdigit_def)+

lemma term_Bin:
  assumes op: "is_mul_op op" and ws: "blank ws" and st: "stops_factor rest"
    and Ta: "\<And>pre rest. stops_factor rest \<Longrightarrow>
       continues (run_term m fs cs (pre @ unparse a @ rest) (length pre)) (tree_value m a)
         (\<lambda>v. run_term_loop m fs cs (pre @ unparse a @ rest) v
                 (length pre + length (unparse a) + length (takeWhile isspace rest)))"
    and Fb: "\<And>pre rest. stops_factor rest \<Longrightarrow>
       continues (run_factor m fs cs (pre @ unparse b @ rest) (length pre)) (tree_value m b)
         (\<lambda>v. Some (Inr v, length pre + length (unparse b) + length (takeWhile isspace rest)))"
  shows "continues (run_term m fs cs (pre @ unparse (Bin a ws op b) @ rest) (length pre))
           (tree_value m (Bin a ws op b))
           (\<lambda>v. run_term_loop m fs cs (pre @ unparse (Bin a ws op b) @ rest) v
                   (length pre + length (unparse (Bin a ws op b)) + length (takeWhile isspace rest)))"
proof -
  let ?c = "op_char op"
  define s where "s = pre @ unparse a @ ws @ ?c # unparse b @ rest"
  define q where "q = length pre + length (unparse a) + length ws"
  define e1 where "e1 = q + 1 + length (unparse b) + length (takeWhile isspace rest)"
  note sab = stops_after_blank[OF ws op_char_plain(1-5), of op "unparse b @ rest"]
  have sa: "stops_factor (ws @ ?c # unparse b @ rest)"
    using sab op_char_plain(6)[of op] by (simp add: stops_factor_def literal_ends_def)
  from Ta[OF sa, of pre] sab(3)
  have A: "continues (run_term m fs cs s (length pre)) (tree_value m a) (\<lambda>v. run_term_loop m fs cs s v q)"
    by (simp add: s_def q_def add.assoc)
  from Fb[OF st, of "pre @ unparse a @ ws @ [?c]"]
  have B: "continues (run_factor m fs cs s (Suc q)) (tree_value m b) (\<lambda>v. Some (Inr v, e1))"
    by (simp add: s_def q_def e1_def add.assoc)
  have lt: "q < length s" by (simp add: s_def q_def)
  have sk: "skip_whitespace s q = q"
    using skip_whitespace_append[of "pre @ unparse a @ ws" "?c # unparse b @ rest"] op_char_plain(1)[of op]
    by (simp add: s_def q_def add.assoc)
  have cq: "s ! q = ?c"
    using nth_append_length[of "pre @ unparse a @ ws" ?c "unparse b @ rest"]
    by (simp add: s_def q_def add.assoc)
  from op have opc: "?c = CHR ''*'' \<or> ?c = CHR ''/'' \<or> ?c = CHR ''%''" by (cases op) auto
  define K where "K = (\<lambda>(x::'a) (right::'a) p2.
                 (if ?c = CHR ''*'' then
                    run_term_loop m fs cs s (sc_multiply m x right) p2
                  else if ?c = CHR ''/'' then
                    (case sc_divide m x right of
                       Inl e \<Rightarrow> Some (Inl e, p2)
                     | Inr v \<Rightarrow> run_term_loop m fs cs s v p2)
                  else
                    (case sc_modulo m x right of
                       Inl e \<Rightarrow> Some (Inl e, p2)
                     | Inr v \<Rightarrow> run_term_loop m fs cs s v p2)))"
  have step: "run_term_loop m fs cs s x q =
      (case run_factor m fs cs s (Suc q) of
         None \<Rightarrow> None | Some (Inl e, p2) \<Rightarrow> Some (Inl e, p2) | Some (Inr right, p2) \<Rightarrow> K x right p2)" for x
    using lt opc unfolding K_def by (subst run_term_loop_eq) (simp add: Let_def sk cq)
  have KK: "continues (K x y e1) (apply_op m op x y) (\<lambda>v. run_term_loop m fs cs s v e1)" for x y
    using op by (cases op) (auto simp: K_def split: sum.splits)
  have loop: "continues (run_term_loop m fs cs s x q)
      (case tree_value m b of Inl e \<Rightarrow> Inl e | Inr y \<Rightarrow> apply_op m op x y)
      (\<lambda>v. run_term_loop m fs cs s v e1)" for x
    unfolding step by (rule continues_then[OF continues_bindI[OF B, of "K x"]]) (rule KK)
  have "continues (run_term m fs cs s (length pre)) (tree_value m (Bin a ws op b))
      (\<lambda>v. run_term_loop m fs cs s v e1)"
    unfolding tree_value.simps by (rule continues_then[OF A]) (rule loop)
  then show ?thesis by (simp add: s_def e1_def q_def add.assoc)
qed


lemma expression_Bin:
  assumes op: "\<not> is_mul_op op" and ws: "blank ws" and st: "stops_term rest"
    and Ea: "\<And>pre rest. stops_term rest \<Longrightarrow>
       continues (run_expression m fs cs (pre @ unparse a @ rest) (length pre)) (tree_value m a)
         (\<lambda>v. run_expression_loop m fs cs (pre @ unparse a @ rest) v
                 (length pre + length (unparse a) + length (takeWhile isspace rest)))"
    and Tb: "\<And>pre rest. stops_term rest \<Longrightarrow>
       continues (run_term m fs cs (pre @ unparse b @ rest) (length pre)) (tree_value m b)
         (\<lambda>v. Some (Inr v, length pre + length (unparse b) + length (takeWhile isspace rest)))"
  shows "continues (run_expression m fs cs (pre @ unparse (Bin a ws op b) @ rest) (length pre))
           (tree_value m (Bin a ws op b))
           (\<lambda>v. run_expression_loop m fs cs (pre @ unparse (Bin a ws op b) @ rest) v
                   (length pre + length (unparse (Bin a ws op b)) + length (takeWhile isspace rest)))"
proof -
  let ?c = "op_char op"
  define s where "s = pre @ unparse a @ ws @ ?c # unparse b @ rest"
  define q where "q = length pre + length (unparse a) + length ws"
  define e1 where "e1 = q + 1 + length (unparse b) + length (takeWhile isspace rest)"
  from op have opc: "?c = CHR ''+'' \<or> ?c = CHR ''-''" by (cases op) auto
  note sab = stops_after_blank[OF ws op_char_plain(1-5), of op "unparse b @ rest"]
  have sa: "stops_term (ws @ ?c # unparse b @ rest)"
    using sab op_char_plain(6)[of op] opc by (auto simp: stops_term_def stops_factor_def literal_ends_def)
  from Ea[OF sa, of pre] sab(3)
  have A: "continues (run_expression m fs cs s (length pre)) (tree_value m a)
             (\<lambda>v. run_expression_loop m fs cs s v q)"
    by (simp add: s_def q_def add.assoc)
  from Tb[OF st, of "pre @ unparse a @ ws @ [?c]"]
  have B: "continues (run_term m fs cs s (Suc q)) (tree_value m b) (\<lambda>v. Some (Inr v, e1))"
    by (simp add: s_def q_def e1_def add.assoc)
  have lt: "q < length s" by (simp add: s_def q_def)
  have sk: "skip_whitespace s q = q"
    using skip_whitespace_append[of "pre @ unparse a @ ws" "?c # unparse b @ rest"] op_char_plain(1)[of op]
    by (simp add: s_def q_def add.assoc)
  have cq: "s ! q = ?c"
    using nth_append_length[of "pre @ unparse a @ ws" ?c "unparse b @ rest"]
    by (simp add: s_def q_def add.assoc)
  define K where "K = (\<lambda>(x::'a) (right::'a) p2.
                 run_expression_loop m fs cs s
                   (if ?c = CHR ''+'' then sc_add m x right else sc_subtract m x right) p2)"
  have step: "run_expression_loop m fs cs s x q =
      (case run_term m fs cs s (Suc q) of
         None \<Rightarrow> None | Some (Inl e, p2) \<Rightarrow> Some (Inl e, p2) | Some (Inr right, p2) \<Rightarrow> K x right p2)" for x
    using lt opc unfolding K_def by (subst run_expression_loop_eq) (simp add: Let_def sk cq)
  have KK: "continues (K x y e1) (apply_op m op x y) (\<lambda>v. run_expression_loop m fs cs s v e1)" for x y
    using op by (cases op) (auto simp: K_def)
  have loop: "continues (run_expression_loop m fs cs s x q)
      (case tree_value m b of Inl e \<Rightarrow> Inl e | Inr y \<Rightarrow> apply_op m op x y)
      (\<lambda>v. run_expression_loop m fs cs s v e1)" for x
    unfolding step by (rule continues_then[OF continues_bindI[OF B, of "K x"]]) (rule KK)
  have "continues (run_expression m fs cs s (length pre)) (tree_value m (Bin a ws op b))
      (\<lambda>v. run_expression_loop m fs cs s v e1)"
    unfolding tree_value.simps by (rule continues_then[OF A]) (rule loop)
  then show ?thesis by (simp add: s_def e1_def q_def add.assoc)
qed

lemma stops_weaken: "stops_expression rest \<Longrightarrow> stops_term rest" "stops_term rest \<Longrightarrow> stops_factor rest"
  by (simp_all add: stops_expression_def stops_term_def)

lemma levels_of_factor:
  assumes F: "\<And>pre rest. stops_factor rest \<Longrightarrow>
       continues (run_factor m fs cs (pre @ u @ rest) (length pre)) val
         (\<lambda>v. Some (Inr v, length pre + length u + length (takeWhile isspace rest)))"
  shows "stops_factor rest \<Longrightarrow>
       continues (run_term m fs cs (pre @ u @ rest) (length pre)) val
         (\<lambda>v. run_term_loop m fs cs (pre @ u @ rest) v
                 (length pre + length u + length (takeWhile isspace rest)))"
    and "stops_term rest \<Longrightarrow>
       continues (run_expression m fs cs (pre @ u @ rest) (length pre)) val
         (\<lambda>v. run_expression_loop m fs cs (pre @ u @ rest) v
                 (length pre + length u + length (takeWhile isspace rest)))"
proof -
  have T: "continues (run_term m fs cs (pre @ u @ rest) (length pre)) val
         (\<lambda>v. run_term_loop m fs cs (pre @ u @ rest) v
                 (length pre + length u + length (takeWhile isspace rest)))"
    if "stops_factor rest" for pre rest
    using that by (intro term_of_factor F)
  show "stops_factor rest \<Longrightarrow>
       continues (run_term m fs cs (pre @ u @ rest) (length pre)) val
         (\<lambda>v. run_term_loop m fs cs (pre @ u @ rest) v
                 (length pre + length u + length (takeWhile isspace rest)))"
    by (rule T)
  show "stops_term rest \<Longrightarrow>
       continues (run_expression m fs cs (pre @ u @ rest) (length pre)) val
         (\<lambda>v. run_expression_loop m fs cs (pre @ u @ rest) v
                 (length pre + length u + length (takeWhile isspace rest)))"
    by (intro expression_of_term term_final T stops_weaken(2))
qed

lemma tree_correct:
  "(is_base e \<and> is_factor e \<longrightarrow> (\<forall>pre rest. literal_ends rest \<longrightarrow>
       continues (run_factor m fs cs (pre @ unparse e @ rest) (length pre)) (tree_value m e)
         (\<lambda>v. power_check m fs cs (pre @ unparse e @ rest) v (length pre + length (unparse e))))) \<and>
   (is_factor e \<longrightarrow> (\<forall>pre rest. stops_factor rest \<longrightarrow>
       continues (run_factor m fs cs (pre @ unparse e @ rest) (length pre)) (tree_value m e)
         (\<lambda>v. Some (Inr v, length pre + length (unparse e) + length (takeWhile isspace rest))))) \<and>
   (is_term e \<longrightarrow> (\<forall>pre rest. stops_factor rest \<longrightarrow>
       continues (run_term m fs cs (pre @ unparse e @ rest) (length pre)) (tree_value m e)
         (\<lambda>v. run_term_loop m fs cs (pre @ unparse e @ rest) v
                 (length pre + length (unparse e) + length (takeWhile isspace rest))))) \<and>
   (is_expr e \<longrightarrow> (\<forall>pre rest. stops_term rest \<longrightarrow>
       continues (run_expression m fs cs (pre @ unparse e @ rest) (length pre)) (tree_value m e)
         (\<lambda>v. run_expression_loop m fs cs (pre @ unparse e @ rest) v
                 (length pre + length (unparse e) + length (takeWhile isspace rest)))))"
proof (induction e)
  case (Num ws l)
  have B: "continues (run_factor m fs cs (pre @ unparse (Num ws l) @ rest) (length pre)) (tree_value m (Num ws l))
         (\<lambda>v. power_check m fs cs (pre @ unparse (Num ws l) @ rest) v (length pre + length (unparse (Num ws l))))"
    if "blank ws" "literal l" "literal_ends rest" for pre rest
    using that by (rule base_Num)
  have F: "continues (run_factor m fs cs (pre @ unparse (Num ws l) @ rest) (length pre)) (tree_value m (Num ws l))
         (\<lambda>v. Some (Inr v, length pre + length (unparse (Num ws l)) + length (takeWhile isspace rest)))"
    if "blank ws" "literal l" "stops_factor rest" for pre rest
    using that by (intro factor_of_base B) (simp_all add: stops_factor_def)
  note TE = levels_of_factor[of m fs cs "unparse (Num ws l)" "tree_value m (Num ws l)", OF F]
  show ?case
    using B F TE by (auto simp del: unparse.simps tree_value.simps)
next
  case (Sign ws u f)
  have F: "continues (run_factor m fs cs (pre @ unparse (Sign ws u f) @ rest) (length pre))
         (tree_value m (Sign ws u f))
         (\<lambda>v. Some (Inr v, length pre + length (unparse (Sign ws u f)) + length (takeWhile isspace rest)))"
    if "blank ws" "is_factor f" "stops_factor rest" for pre rest
    using that Sign.IH by (intro factor_Sign) blast+
  note TE = levels_of_factor[of m fs cs "unparse (Sign ws u f)" "tree_value m (Sign ws u f)", OF F]
  show ?case
    using F TE by (auto simp del: unparse.simps tree_value.simps)
next
  case (Pow b ws f)
  have F: "continues (run_factor m fs cs (pre @ unparse (Pow b ws f) @ rest) (length pre))
         (tree_value m (Pow b ws f))
         (\<lambda>v. Some (Inr v, length pre + length (unparse (Pow b ws f)) + length (takeWhile isspace rest)))"
    if "is_base b" "is_factor b" "blank ws" "is_factor f" "stops_factor rest" for pre rest
    using that Pow.IH by (intro factor_Pow) blast+
  note TE = levels_of_factor[of m fs cs "unparse (Pow b ws f)" "tree_value m (Pow b ws f)", OF F]
  show ?case
    using F TE by (auto simp del: unparse.simps tree_value.simps)
next
  case (Paren ws e ws')
  have B: "continues (run_factor m fs cs (pre @ unparse (Paren ws e ws') @ rest) (length pre))
         (tree_value m (Paren ws e ws'))
         (\<lambda>v. power_check m fs cs (pre @ unparse (Paren ws e ws') @ rest) v
                 (length pre + length (unparse (Paren ws e ws'))))"
    if "blank ws" "is_expr e" "blank ws'" for pre rest
  proof (rule base_Paren[OF that(1,3)])
    fix pre rest
    assume se: "stops_expression rest"
    from Paren.IH that(2) stops_weaken(1)[OF se]
    have "continues (run_expression m fs cs (pre @ unparse e @ rest) (length pre)) (tree_value m e)
         (\<lambda>v. run_expression_loop m fs cs (pre @ unparse e @ rest) v
                 (length pre + length (unparse e) + length (takeWhile isspace rest)))"
      by blast
    from expression_final[OF this se]
    show "continues (run_expression m fs cs (pre @ unparse e @ rest) (length pre)) (tree_value m e)
         (\<lambda>v. Some (Inr v, length pre + length (unparse e) + length (takeWhile isspace rest)))" .
  qed
  have F: "continues (run_factor m fs cs (pre @ unparse (Paren ws e ws') @ rest) (length pre))
         (tree_value m (Paren ws e ws'))
         (\<lambda>v. Some (Inr v, length pre + length (unparse (Paren ws e ws')) + length (takeWhile isspace rest)))"
    if "blank ws" "is_expr e" "blank ws'" "stops_factor rest" for pre rest
    using that by (intro factor_of_base B) (simp_all add: stops_factor_def)
  note TE = levels_of_factor[of m fs cs "unparse (Paren ws e ws')" "tree_value m (Paren ws e ws')", OF F]
  show ?case
    using B F TE by (auto simp del: unparse.simps tree_value.simps)
next
  case (Bin a ws op b)
  have T: "continues (run_term m fs cs (pre @ unparse (Bin a ws op b) @ rest) (length pre))
           (tree_value m (Bin a ws op b))
           (\<lambda>v. run_term_loop m fs cs (pre @ unparse (Bin a ws op b) @ rest) v
                   (length pre + length (unparse (Bin a ws op b)) + length (takeWhile isspace rest)))"
    if "is_mul_op op" "is_term a" "blank ws" "is_factor b" "stops_factor rest" for pre rest
    using that Bin.IH by (intro term_Bin) blast+
  have E1: "continues (run_expression m fs cs (pre @ unparse (Bin a ws op b) @ rest) (length pre))
           (tree_value m (Bin a ws op b))
           (\<lambda>v. run_expression_loop m fs cs (pre @ unparse (Bin a ws op b) @ rest) v
                   (length pre + length (unparse (Bin a ws op b)) + length (takeWhile isspace rest)))"
    if "is_mul_op op" "is_term a" "blank ws" "is_factor b" "stops_term rest" for pre rest
    by (intro expression_of_term term_final T that stops_weaken(2))
  have E2: "continues (run_expression m fs cs (pre @ unparse (Bin a ws op b) @ rest) (length pre))
           (tree_value m (Bin a ws op b))
           (\<lambda>v. run_expression_loop m fs cs (pre @ unparse (Bin a ws op b) @ rest) v
                   (length pre + length (unparse (Bin a ws op b)) + length (takeWhile isspace rest)))"
    if "\<not> is_mul_op op" "is_expr a" "blank ws" "is_term b" "stops_term rest" for pre rest
  proof (rule expression_Bin[OF that(1,3,5)])
    fix pre rest
    assume "stops_term rest"
    with Bin.IH(1) that(2)
    show "continues (run_expression m fs cs (pre @ unparse a @ rest) (length pre)) (tree_value m a)
         (\<lambda>v. run_expression_loop m fs cs (pre @ unparse a @ rest) v
                 (length pre + length (unparse a) + length (takeWhile isspace rest)))"
      by blast
  next
    fix pre rest
    assume stt: "stops_term rest"
    from Bin.IH(2) that(4) stops_weaken(2)[OF stt]
    have "continues (run_term m fs cs (pre @ unparse b @ rest) (length pre)) (tree_value m b)
         (\<lambda>v. run_term_loop m fs cs (pre @ unparse b @ rest) v
                 (length pre + length (unparse b) + length (takeWhile isspace rest)))"
      by blast
    from term_final[OF this stt]
    show "continues (run_term m fs cs (pre @ unparse b @ rest) (length pre)) (tree_value m b)
         (\<lambda>v. Some (Inr v, length pre + length (unparse b) + length (takeWhile isspace rest)))" .
  qed
  show ?case
    using T E1 E2 by (auto simp del: unparse.simps tree_value.simps)
qed

lemmas chars = isspace_def isdigit_def isalpha_def isalnum_def

section \<open>Facts for the claims\<close>

lemma scan_mantissa_digits:
  assumes "list_all isdigit ds"
  shows "scan_mantissa (pre @ ds @ rest) (length pre) h =
         scan_mantissa (pre @ ds @ rest) (length pre + length ds) h"
  using assms
proof (induction ds arbitrary: pre)
  case Nil
  show ?case by simp
next
  case (Cons c ds)
  then have d: "isdigit c" and ds: "list_all isdigit ds" by simp_all
  have "scan_mantissa (pre @ (c # ds) @ rest) (length pre) h =
        scan_mantissa ((pre @ [c]) @ ds @ rest) (length (pre @ [c])) h"
    using d isdigit_not_others[OF d] by (subst scan_mantissa.simps) simp
  also have "\<dots> = scan_mantissa ((pre @ [c]) @ ds @ rest) (length (pre @ [c]) + length ds) h"
    by (rule Cons.IH[OF ds])
  finally show ?case by simp
qed

lemma scan_mantissa_two_points:
  assumes d1: "list_all isdigit d1" and d2: "list_all isdigit d2"
  shows "scan_mantissa (pre @ d1 @ CHR ''.'' # d2 @ CHR ''.'' # rest) (length pre) False =
           (Inl (runtime_error ''Invalid number format''), length pre + length d1 + 1 + length d2)"
proof -
  define s where "s = pre @ d1 @ CHR ''.'' # d2 @ CHR ''.'' # rest"
  define q1 where "q1 = length pre + length d1"
  define q2 where "q2 = length pre + length d1 + 1 + length d2"
  have a: "scan_mantissa s (length pre) False = scan_mantissa s q1 False"
    using scan_mantissa_digits[OF d1, of pre "CHR ''.'' # d2 @ CHR ''.'' # rest" False]
    by (simp add: s_def q1_def)
  have c1: "s ! q1 = CHR ''.''" "q1 < length s"
    using nth_append_length[of "pre @ d1" "CHR ''.''" "d2 @ CHR ''.'' # rest"]
    by (simp_all add: s_def q1_def)
  have b: "scan_mantissa s q1 False = scan_mantissa s (Suc q1) True"
    using c1 by (subst scan_mantissa.simps) simp
  have c: "scan_mantissa s (Suc q1) True = scan_mantissa s q2 True"
    using scan_mantissa_digits[OF d2, of "pre @ d1 @ ''.''" "CHR ''.'' # rest" True]
    by (simp add: s_def q1_def q2_def add.assoc)
  have c2: "s ! q2 = CHR ''.''" "q2 < length s"
    using nth_append_length[of "pre @ d1 @ CHR ''.'' # d2" "CHR ''.''" rest]
    by (simp_all add: s_def q2_def add.assoc)
  have d: "scan_mantissa s q2 True = (Inl (runtime_error ''Invalid number format''), q2)"
    using c2 by (subst scan_mantissa.simps) simp
  from a b c d show ?thesis by (simp add: s_def q2_def)
qed

lemma parse_number_two_points:
  assumes "blank ws" and "list_all isdigit d1" and "list_all isdigit d2"
  shows "parse_number m (pre @ ws @ d1 @ CHR ''.'' # d2 @ CHR ''.'' # rest) (length pre) =
           (Inl (runtime_error ''Invalid number format''),
            length pre + length ws + length d1 + 1 + length d2)"
proof -
  let ?tok = "d1 @ CHR ''.'' # d2 @ CHR ''.'' # rest"
  have "?tok \<noteq> [] \<and> (isdigit (hd ?tok) \<or> hd ?tok = CHR ''.'')"
    using assms(2) by (cases d1) auto
  then have plain: "\<not> isspace (hd ?tok)"
    using isdigit_not_others[of "hd ?tok"] by auto
  define s where "s = pre @ ws @ ?tok"
  define p0 where "p0 = length pre + length ws"
  have sk: "skip_whitespace s (length pre) = p0"
    using skip_blank[OF assms(1), of ?tok pre] plain by (simp add: s_def p0_def)
  have lt: "p0 < length s" by (simp add: s_def p0_def)
  have sm: "scan_mantissa s p0 False =
      (Inl (runtime_error ''Invalid number format''), p0 + length d1 + 1 + length d2)"
    using scan_mantissa_two_points[OF assms(2,3), of "pre @ ws" rest]
    by (simp add: s_def p0_def add.assoc)
  have "parse_number m s (length pre) =
      (Inl (runtime_error ''Invalid number format''), p0 + length d1 + 1 + length d2)"
    using lt by (simp add: parse_number_alt Let_def sk sm)
  then show ?thesis by (simp add: s_def p0_def)
qed

lemma evaluate_factor_throws:
  assumes "run_factor m (m_functions P) (m_constants P) e 0 = Some (Inl x, p)"
  shows "evaluate m P e = Some (Inl x, P\<lparr>m_input := e, m_pos := p\<rparr>)"
  using assms by (simp add: evaluate_run run_expression_eq run_term_eq)

lemma max_inside: "pos \<le> length s \<Longrightarrow> max pos (length s) = length s"
  by simp

lemma evaluate_tree:
  assumes "is_expr e" and "stops_expression rest"
  shows "continues (run_expression m (m_functions P) (m_constants P) (unparse e @ rest) 0) (tree_value m e)
           (\<lambda>v. Some (Inr v, length (unparse e) + length (takeWhile isspace rest)))"
proof -
  let ?fs = "m_functions P" and ?cs = "m_constants P"
  from tree_correct[of e m ?fs ?cs] assms(1) stops_weaken(1)[OF assms(2)]
  have "continues (run_expression m ?fs ?cs ([] @ unparse e @ rest) (length ([]::string))) (tree_value m e)
         (\<lambda>v. run_expression_loop m ?fs ?cs ([] @ unparse e @ rest) v
                 (length ([]::string) + length (unparse e) + length (takeWhile isspace rest)))"
    by blast
  from expression_final[OF this assms(2)] show ?thesis by simp
qed

lemma evaluate_tree_value:
  assumes "is_expr e" and "stops_expression rest" and "tree_value m e = Inr v"
  shows "evaluate m P (unparse e @ rest) =
           Some (Inr v, P\<lparr>m_input := unparse e @ rest,
                          m_pos := length (unparse e) + length (takeWhile isspace rest)\<rparr>)"
  using evaluate_tree[OF assms(1,2), of m P] assms(3) by (simp add: evaluate_run)

lemma evaluate_tree_throws:
  assumes "is_expr e" and "stops_expression rest" and "tree_value m e = Inl x"
  shows "\<exists>p. evaluate m P (unparse e @ rest) = Some (Inl x, P\<lparr>m_input := unparse e @ rest, m_pos := p\<rparr>)"
  using evaluate_tree[OF assms(1,2), of m P] assms(3) by (auto simp: evaluate_run)

lemma is_factor_levels: "is_factor e \<Longrightarrow> is_term e \<and> is_expr e"
  by (cases e) simp_all

lemma isalpha_plain:
  "isalpha c \<Longrightarrow> c \<noteq> CHR ''-'' \<and> c \<noteq> CHR ''+'' \<and> c \<noteq> CHR ''('' \<and> c \<noteq> CHR '')'' \<and> c \<noteq> CHR ''^''"
  by (auto simp: isalpha_def Let_def)

section \<open>Scanning a name\<close>

lemma scan_identifier_append:
  assumes "list_all ident_char name" and "rest = [] \<or> \<not> ident_char (hd rest)"
  shows "scan_identifier (pre @ name @ rest) (length pre) acc = (acc @ name, length pre + length name)"
  using assms(1)
proof (induction name arbitrary: pre acc)
  case Nil
  from assms(2) show ?case
    by (subst scan_identifier.simps) (cases rest; simp add: ident_char_def)
next
  case (Cons c name)
  then have c: "ident_char c" and n: "list_all ident_char name" by simp_all
  have "scan_identifier (pre @ (c # name) @ rest) (length pre) acc =
        scan_identifier ((pre @ [c]) @ name @ rest) (length (pre @ [c])) (acc @ [c])"
    using c by (subst scan_identifier.simps) (simp add: ident_char_def)
  also have "\<dots> = ((acc @ [c]) @ name, length (pre @ [c]) + length name)"
    by (rule Cons.IH[OF n])
  finally show ?case by simp
qed

lemma ident_char_plain:
  "ident_char c \<Longrightarrow> \<not> isspace c \<and> c \<noteq> CHR ''('' \<and> c \<noteq> CHR '')'' \<and> c \<noteq> CHR ''^'' \<and> c \<noteq> CHR ''+''
     \<and> c \<noteq> CHR ''-'' \<and> c \<noteq> CHR ''*'' \<and> c \<noteq> CHR ''/'' \<and> c \<noteq> CHR ''%''"
  by (auto simp: ident_char_def isalnum_def isalpha_def isdigit_def isspace_def Let_def)

text \<open>The identifier branch of \<open>parse_factor\<close> on a text given by its parts.\<close>

lemma factor_identifier:
  assumes ws: "blank ws" and name: "is_identifier name"
    and rest: "rest = [] \<or> \<not> ident_char (hd rest)"
  shows "run_factor m fs cs (pre @ ws @ name @ rest) (length pre) =
           (let p2 = length pre + length ws + length name + length (takeWhile isspace rest) in
            if ahead rest \<noteq> [] \<and> hd (ahead rest) = CHR ''('' then
              (case run_expression m fs cs (pre @ ws @ name @ rest) (Suc p2) of
                 None \<Rightarrow> None
               | Some (Inl e, p3) \<Rightarrow> Some (Inl e, p3)
               | Some (Inr arg, p3) \<Rightarrow>
                   let p4 = skip_whitespace (pre @ ws @ name @ rest) p3 in
                   if p4 \<ge> length (pre @ ws @ name @ rest) \<or> (pre @ ws @ name @ rest) ! p4 \<noteq> CHR '')'' then
                     Some (Inl (runtime_error ''Mismatched parentheses in function call''), p4)
                   else
                     (case fs name of
                        None \<Rightarrow> Some (Inl (runtime_error (''Unknown function: '' @ name)), p4 + 1)
                      | Some f \<Rightarrow> Some (f arg, p4 + 1)))
            else
              (case cs name of
                 Some c \<Rightarrow> Some (Inr c, p2)
               | None \<Rightarrow> Some (Inl (runtime_error (''Unknown identifier: '' @ name)), p2)))"
proof -
  from name obtain c nt where nm: "name = c # nt" and al: "isalpha c" and ic: "list_all ident_char name"
    by (cases name) (auto simp: is_identifier_def)
  define s where "s = pre @ ws @ name @ rest"
  define p0 where "p0 = length pre + length ws"
  define p1 where "p1 = length pre + length ws + length name"
  define p2 where "p2 = length pre + length ws + length name + length (takeWhile isspace rest)"
  from ic nm have "ident_char c" by simp
  note pl = ident_char_plain[OF this]
  have sk: "skip_whitespace s (length pre) = p0"
    using skip_blank[OF ws, of "name @ rest" pre] pl nm by (simp add: s_def p0_def)
  have c0: "s ! p0 = c" "p0 < length s"
    using nth_append_length[of "pre @ ws" c "nt @ rest"] by (simp_all add: s_def p0_def nm)
  have si: "scan_identifier s p0 [] = (name, p1)"
    using scan_identifier_append[OF ic rest, of "pre @ ws" "[]"] by (simp add: s_def p0_def p1_def)
  have s2: "skip_whitespace s p1 = p2"
    using skip_whitespace_append[of "pre @ ws @ name" rest] by (simp add: s_def p1_def p2_def add.assoc)
  have at: "(p2 < length s \<and> s ! p2 = CHR ''('') \<longleftrightarrow> (ahead rest \<noteq> [] \<and> hd (ahead rest) = CHR ''('')"
  proof (cases "ahead rest = []")
    case True
    from at_ahead_Nil[OF this, of "pre @ ws @ name"] show ?thesis using True
      by (simp add: s_def p2_def add.assoc)
  next
    case False
    from at_ahead[OF this, of "pre @ ws @ name"] show ?thesis using False
      by (simp add: s_def p2_def add.assoc)
  qed
  have "run_factor m fs cs s (length pre) =
           (if ahead rest \<noteq> [] \<and> hd (ahead rest) = CHR ''('' then
              (case run_expression m fs cs s (Suc p2) of
                 None \<Rightarrow> None
               | Some (Inl e, p3) \<Rightarrow> Some (Inl e, p3)
               | Some (Inr arg, p3) \<Rightarrow>
                   let p4 = skip_whitespace s p3 in
                   if p4 \<ge> length s \<or> s ! p4 \<noteq> CHR '')'' then
                     Some (Inl (runtime_error ''Mismatched parentheses in function call''), p4)
                   else
                     (case fs name of
                        None \<Rightarrow> Some (Inl (runtime_error (''Unknown function: '' @ name)), p4 + 1)
                      | Some f \<Rightarrow> Some (f arg, p4 + 1)))
            else
              (case cs name of
                 Some c \<Rightarrow> Some (Inr c, p2)
               | None \<Rightarrow> Some (Inl (runtime_error (''Unknown identifier: '' @ name)), p2)))"
    using c0 al pl isalpha_plain[OF al] at
    by (subst run_factor_eq) (simp add: Let_def sk si s2 split: option.splits)
  then show ?thesis unfolding s_def p2_def Let_def .
qed


lemma expression_tree:
  assumes "is_expr e" and "stops_expression rest"
  shows "continues (run_expression m fs cs (pre @ unparse e @ rest) (length pre)) (tree_value m e)
           (\<lambda>v. Some (Inr v, length pre + length (unparse e) + length (takeWhile isspace rest)))"
proof -
  from tree_correct[of e m fs cs] assms(1) stops_weaken(1)[OF assms(2)]
  have "continues (run_expression m fs cs (pre @ unparse e @ rest) (length pre)) (tree_value m e)
         (\<lambda>v. run_expression_loop m fs cs (pre @ unparse e @ rest) v
                 (length pre + length (unparse e) + length (takeWhile isspace rest)))"
    by blast
  from expression_final[OF this assms(2)] show ?thesis .
qed

lemma call_unknown:
  assumes ws: "blank ws" and name: "is_identifier name" and w: "blank w" and e: "is_expr e"
    and w': "blank w'" and v: "tree_value m e = Inr v" and fs: "fs name = None"
  shows "run_factor m fs cs (ws @ name @ w @ ''('' @ unparse e @ w' @ '')'' @ rest) 0 =
           Some (Inl (runtime_error (''Unknown function: '' @ name)),
                 length (ws @ name @ w @ ''('' @ unparse e @ w' @ '')''))"
proof -
  let ?u = "unparse e"
  define tail where "tail = w @ CHR ''('' # ?u @ w' @ CHR '')'' # rest"
  define s where "s = ws @ name @ tail"
  define p2 where "p2 = length ws + length name + length w"
  define p3 where "p3 = length ws + length name + length w + 1 + length ?u + length w'"
  have sb: "ahead tail = CHR ''('' # ?u @ w' @ CHR '')'' # rest" "takeWhile isspace tail = w"
    using stops_after_blank(2,3)[OF w, of "CHR ''(''" "?u @ w' @ CHR '')'' # rest"]
    by (simp_all add: tail_def)
  have nc: "tail = [] \<or> \<not> ident_char (hd tail)"
  proof (cases w)
    case Nil
    then show ?thesis using ident_char_plain[of "CHR ''(''"] by (auto simp: tail_def)
  next
    case (Cons c w2)
    with w have "isspace c" by (simp add: blank_def)
    then show ?thesis using ident_char_plain[of c] Cons by (auto simp: tail_def)
  qed
  have se: "stops_expression (w' @ CHR '')'' # rest)"
    using stops_after_blank[OF w', of "CHR '')''" rest]
    by (simp add: stops_expression_def stops_term_def stops_factor_def literal_ends_def)
  have tw: "length (takeWhile isspace (w' @ CHR '')'' # rest)) = length w'"
    using w' by (simp add: takeWhile_blank_append)
  from expression_tree[OF e se, of m fs cs "ws @ name @ w @ ''(''"] tw v
  have inner: "run_expression m fs cs s (Suc p2) = Some (Inr v, p3)"
    by (simp add: add.assoc s_def tail_def p2_def p3_def)
  have k3: "skip_whitespace s p3 = p3"
    using skip_whitespace_append[of "ws @ name @ w @ CHR ''('' # ?u @ w'" "CHR '')'' # rest"]
    by (simp add: add.assoc s_def tail_def p3_def)
  have c3: "s ! p3 = CHR '')''" "p3 < length s"
    using nth_append_length[of "ws @ name @ w @ CHR ''('' # ?u @ w'" "CHR '')''" rest]
    by (simp_all add: add.assoc s_def tail_def p3_def)
  from factor_identifier[OF ws name nc, of m fs cs "[]"]
  have "run_factor m fs cs s 0 = Some (Inl (runtime_error (''Unknown function: '' @ name)), Suc p3)"
    using c3 by (simp add: Let_def sb s_def[symmetric] p2_def[symmetric] inner k3 fs)
  then show ?thesis by (simp add: s_def tail_def p3_def)
qed

lemma reference_unknown:
  assumes ws: "blank ws" and name: "is_identifier name"
    and rest: "rest = [] \<or> \<not> ident_char (hd rest)"
    and nocall: "ahead rest = [] \<or> hd (ahead rest) \<noteq> CHR ''(''"
    and cs: "cs name = None"
  shows "run_factor m fs cs (ws @ name @ rest) 0 =
           Some (Inl (runtime_error (''Unknown identifier: '' @ name)),
                 length ws + length name + length (takeWhile isspace rest))"
  using factor_identifier[OF ws name rest, of m fs cs "[]"] nocall cs
  by (auto simp: Let_def)

section \<open>The tokens of \<open>parse_number\<close>\<close>

lemma marker_plain:
  "c = CHR ''e'' \<or> c = CHR ''E'' \<Longrightarrow> \<not> isspace c \<and> \<not> isdigit c \<and> c \<noteq> CHR ''.'' \<and> \<not> mantissa_char c"
  by (auto simp: isspace_def isdigit_def mantissa_char_def)

lemma exp_end_scanned:
  assumes "exponent_scanned ex"
    and "rest = [] \<or> (\<not> isdigit (hd rest) \<and>
           (ex = [] \<longrightarrow> hd rest \<noteq> CHR ''e'' \<and> hd rest \<noteq> CHR ''E'') \<and>
           (length ex = 1 \<longrightarrow> hd rest \<noteq> CHR ''+'' \<and> hd rest \<noteq> CHR ''-''))"
  shows "exp_end (pre @ ex @ rest) (length pre) = length pre + length ex"
proof (cases ex)
  case Nil
  with exp_end_none[of rest pre] assms(2) show ?thesis by auto
next
  case (Cons c t)
  define sg where "sg = (if t \<noteq> [] \<and> (hd t = CHR ''+'' \<or> hd t = CHR ''-'') then [hd t] else [])"
  define d where "d = (if t \<noteq> [] \<and> (hd t = CHR ''+'' \<or> hd t = CHR ''-'') then tl t else t)"
  have t: "t = sg @ d" by (cases t) (auto simp: sg_def d_def)
  from assms(1) Cons have c: "c = CHR ''e'' \<or> c = CHR ''E''" and d: "list_all isdigit d"
    by (simp_all add: d_def)
  have sg: "sg = [] \<or> sg = ''+'' \<or> sg = ''-''" by (auto simp: sg_def)
  have "rest = [] \<or> (\<not> isdigit (hd rest) \<and>
                 (sg = [] \<and> d = [] \<longrightarrow> hd rest \<noteq> CHR ''+'' \<and> hd rest \<noteq> CHR ''-''))"
    using assms(2) Cons t by auto
  from exp_end_marker[OF c sg d this, of pre]
  show ?thesis using Cons t by auto
qed

lemma parse_number_token:
  assumes ws: "blank ws" and tok: "number_token l" and ends: "token_ends l rest"
  shows "parse_number m (pre @ ws @ l @ rest) (length pre) =
           (case stod m l of
              None \<Rightarrow> (Inl (runtime_error (''Invalid number: '' @ l)), length pre + length ws + length l)
            | Some v \<Rightarrow> (Inr v, length pre + length ws + length l))"
proof -
  define mant where "mant = takeWhile mantissa_char l"
  define ex where "ex = dropWhile mantissa_char l"
  have l: "l = mant @ ex" by (simp add: mant_def ex_def)
  have mant: "list_all mantissa_char mant"
    by (simp add: mant_def list_all_iff) (meson set_takeWhileD)
  have ex0: "ex = [] \<or> \<not> mantissa_char (hd ex)"
    using hd_dropWhile[of mantissa_char l] by (auto simp: ex_def)
  from tok have ne: "l \<noteq> []" and cnt: "count_list mant CHR ''.'' \<le> 1" and exs: "exponent_scanned ex"
    by (simp_all add: number_token_def Let_def mant_def ex_def)
  have exhd: "ex \<noteq> [] \<Longrightarrow> hd ex = CHR ''e'' \<or> hd ex = CHR ''E''"
    using exs by (cases ex) auto
  have nsp: "\<not> isspace (hd (l @ rest))"
  proof (cases mant)
    case Nil
    with l ne have "ex \<noteq> []" by simp
    from marker_plain[OF exhd[OF this]] this Nil l show ?thesis by simp
  next
    case (Cons c mt)
    with mant have "mantissa_char c" by simp
    from mantissa_not_others[OF this] Cons l show ?thesis by simp
  qed
  define s where "s = pre @ ws @ l @ rest"
  define p0 where "p0 = length pre + length ws"
  define p1 where "p1 = length pre + length ws + length mant"
  define p2 where "p2 = length pre + length ws + length l"
  have sk: "skip_whitespace s (length pre) = p0"
    using skip_blank[OF ws, of "l @ rest" pre] nsp by (simp add: s_def p0_def)
  have stop: "ex @ rest = [] \<or> \<not> (isdigit (hd (ex @ rest)) \<or> hd (ex @ rest) = CHR ''.'')"
  proof (cases ex)
    case Nil
    with ends show ?thesis by (auto simp: token_ends_def Let_def ex_def[symmetric])
  next
    case (Cons c t)
    with ex0 show ?thesis by (simp add: mantissa_char_def)
  qed
  have sm: "scan_mantissa s p0 False = (Inr (), p1)"
    using scan_mantissa_literal[of mant False "ex @ rest" "pre @ ws"] mant stop cnt
    by (simp add: s_def p0_def p1_def l mantissa_char_def[abs_def])
  have e2: "rest = [] \<or> (\<not> isdigit (hd rest) \<and>
           (ex = [] \<longrightarrow> hd rest \<noteq> CHR ''e'' \<and> hd rest \<noteq> CHR ''E'') \<and>
           (length ex = 1 \<longrightarrow> hd rest \<noteq> CHR ''+'' \<and> hd rest \<noteq> CHR ''-''))"
    using ends by (auto simp: token_ends_def Let_def ex_def[symmetric])
  have ee: "exp_end s p1 = p2"
    using exp_end_scanned[OF exs e2, of "pre @ ws @ mant"]
    by (simp add: s_def p1_def p2_def l add.assoc)
  have sub: "substr s p0 (p2 - p0) = l"
    using append_eq_conv_conj[of "pre @ ws" "l @ rest" s]
    by (simp add: substr_def s_def p2_def p0_def)
  have "p0 \<noteq> p2" "p0 < length s" using ne by (simp_all add: p2_def p0_def s_def)
  then have "parse_number m s (length pre) =
           (case stod m l of
              None \<Rightarrow> (Inl (runtime_error (''Invalid number: '' @ l)), p2)
            | Some v \<Rightarrow> (Inr v, p2))"
    by (simp add: parse_number_alt sk sm ee sub Let_def split: option.splits)
  then show ?thesis unfolding s_def p2_def .
qed


lemma substr_Cons:
  assumes "pos < length s" and "pos < p"
  shows "substr s pos (p - pos) = s ! pos # substr s (Suc pos) (p - Suc pos)"
proof -
  have "drop pos s = s ! pos # drop (Suc pos) s" using assms(1) by (simp add: Cons_nth_drop_Suc)
  moreover have "p - pos = Suc (p - Suc pos)" using assms(2) by simp
  ultimately show ?thesis by (simp add: substr_def)
qed

lemma substr_Nil [simp]: "substr s pos 0 = []"
  by (simp add: substr_def)

lemma scan_digits_sound:
  "list_all isdigit (substr s pos (scan_digits s pos - pos)) \<and>
   (scan_digits s pos < length s \<longrightarrow> \<not> isdigit (s ! scan_digits s pos))"
proof (induction s pos rule: scan_digits.induct)
  case (1 s pos)
  show ?case
  proof (cases "pos < length s \<and> isdigit (s ! pos)")
    case True
    then have eq: "scan_digits s pos = scan_digits s (Suc pos)"
      by (subst scan_digits.simps) simp
    have lt: "pos < scan_digits s (Suc pos)" using scan_digits_bounds[of "Suc pos" s] by simp
    from "1.IH"[OF True] True substr_Cons[OF _ lt, of s] show ?thesis
      unfolding eq by simp
  next
    case False
    then have eq: "scan_digits s pos = pos" by (subst scan_digits.simps) auto
    from False show ?thesis unfolding eq by auto
  qed
qed

lemma scan_mantissa_sound:
  "scan_mantissa s pos has_dot = (Inr (), p) \<Longrightarrow>
     list_all mantissa_char (substr s pos (p - pos)) \<and>
     count_list (substr s pos (p - pos)) CHR ''.'' + (if has_dot then 1 else 0) \<le> 1 \<and>
     (p < length s \<longrightarrow> \<not> mantissa_char (s ! p))"
proof (induction s pos has_dot rule: scan_mantissa.induct)
  case (1 s pos has_dot)
  let ?c = "pos < length s \<and> (isdigit (s ! pos) \<or> s ! pos = CHR ''.'')"
  show ?case
  proof (cases ?c)
    case False
    with "1.prems" have "p = pos" by (subst (asm) scan_mantissa.simps) auto
    with False show ?thesis by (auto simp: mantissa_char_def)
  next
    case c: True
    then have mc: "mantissa_char (s ! pos)" and lt: "pos < length s" by (simp_all add: mantissa_char_def)
    show ?thesis
    proof (cases "s ! pos = CHR ''.''")
      case dot: True
      show ?thesis
      proof (cases has_dot)
        case True
        with c dot "1.prems" show ?thesis by (subst (asm) scan_mantissa.simps) auto
      next
        case False
        with c dot "1.prems" have r: "scan_mantissa s (pos + 1) True = (Inr (), p)"
          by (subst (asm) scan_mantissa.simps) auto
        from scan_mantissa_bounds[OF r] have "pos < p" by simp
        from "1.IH"(1)[OF c dot False r] substr_Cons[OF lt this] mc dot False
        show ?thesis by simp
      qed
    next
      case nodot: False
      with c "1.prems" have r: "scan_mantissa s (pos + 1) has_dot = (Inr (), p)"
        by (subst (asm) scan_mantissa.simps) auto
      from scan_mantissa_bounds[OF r] have "pos < p" by simp
      from "1.IH"(2)[OF c nodot r] substr_Cons[OF lt this] mc nodot
      show ?thesis by simp
    qed
  qed
qed

lemma scan_mantissa_throws:
  "scan_mantissa s pos has_dot = (Inl e, p) \<Longrightarrow> e = runtime_error ''Invalid number format''"
proof (induction s pos has_dot rule: scan_mantissa.induct)
  case (1 s pos has_dot)
  let ?c = "pos < length s \<and> (isdigit (s ! pos) \<or> s ! pos = CHR ''.'')"
  show ?case
  proof (cases ?c)
    case False
    with "1.prems" show ?thesis by (subst (asm) scan_mantissa.simps) auto
  next
    case c: True
    show ?thesis
    proof (cases "s ! pos = CHR ''.''")
      case dot: True
      show ?thesis
      proof (cases has_dot)
        case True
        with c dot "1.prems" show ?thesis by (subst (asm) scan_mantissa.simps) auto
      next
        case False
        with c dot "1.prems" have r: "scan_mantissa s (pos + 1) True = (Inl e, p)"
          by (subst (asm) scan_mantissa.simps) auto
        from "1.IH"(1)[OF c dot False r] show ?thesis .
      qed
    next
      case nodot: False
      with c "1.prems" have r: "scan_mantissa s (pos + 1) has_dot = (Inl e, p)"
        by (subst (asm) scan_mantissa.simps) auto
      from "1.IH"(2)[OF c nodot r] show ?thesis .
    qed
  qed
qed


lemma substr_split:
  assumes "p0 \<le> p1" and "p1 \<le> q"
  shows "substr s p0 (q - p0) = substr s p0 (p1 - p0) @ substr s p1 (q - p1)"
proof -
  have "q - p0 = (p1 - p0) + (q - p1)" using assms by simp
  then have "take (q - p0) (drop p0 s) =
      take (p1 - p0) (drop p0 s) @ take (q - p1) (drop (p1 - p0) (drop p0 s))"
    by (simp only: take_add)
  moreover have "drop (p1 - p0) (drop p0 s) = drop p1 s" using assms(1) by simp
  ultimately show ?thesis by (simp add: substr_def)
qed

lemma substr_empty:
  assumes "substr s p1 (q - p1) = []" and "p1 \<le> q" and "q \<le> length s"
  shows "q = p1"
  using assms by (auto simp: substr_def)

lemma exp_end_sound:
  assumes "p1 \<le> length s"
  shows "exponent_scanned (substr s p1 (exp_end s p1 - p1)) \<and>
         (substr s p1 (exp_end s p1 - p1) = [] \<or> \<not> mantissa_char (hd (substr s p1 (exp_end s p1 - p1)))) \<and>
         (exp_end s p1 < length s \<longrightarrow>
            (substr s p1 (exp_end s p1 - p1) = [] \<longrightarrow>
               s ! exp_end s p1 \<noteq> CHR ''e'' \<and> s ! exp_end s p1 \<noteq> CHR ''E'') \<and>
            (substr s p1 (exp_end s p1 - p1) \<noteq> [] \<longrightarrow> \<not> isdigit (s ! exp_end s p1)) \<and>
            (length (substr s p1 (exp_end s p1 - p1)) = 1 \<longrightarrow>
               s ! exp_end s p1 \<noteq> CHR ''+'' \<and> s ! exp_end s p1 \<noteq> CHR ''-''))"
proof (cases "p1 < length s \<and> (s ! p1 = CHR ''e'' \<or> s ! p1 = CHR ''E'')")
  case False
  then have q: "exp_end s p1 = p1" by (auto simp: exp_end_def)
  from False show ?thesis unfolding q by auto
next
  case mk: True
  then have lt: "p1 < length s" and c: "s ! p1 = CHR ''e'' \<or> s ! p1 = CHR ''E''" by simp_all
  define q1 where "q1 = Suc p1"
  show ?thesis
  proof (cases "q1 < length s \<and> (s ! q1 = CHR ''+'' \<or> s ! q1 = CHR ''-'')")
    case sg: True
    define q where "q = scan_digits s (Suc q1)"
    have qe: "exp_end s p1 = q"
      using mk sg by (auto simp: exp_end_def Let_def q1_def q_def)
    have b: "Suc q1 \<le> q" using scan_digits_bounds[of "Suc q1" s] by (simp add: q_def)
    define d where "d = substr s (Suc q1) (q - Suc q1)"
    have ex: "substr s p1 (q - p1) = s ! p1 # s ! q1 # d"
      using substr_Cons[OF lt, of q] substr_Cons[of q1 s q] sg b
      by (simp add: q1_def d_def)
    have dd: "list_all isdigit d" "q < length s \<longrightarrow> \<not> isdigit (s ! q)"
      using scan_digits_sound[of s "Suc q1"] by (simp_all add: d_def q_def)
    from c sg dd marker_plain[OF c] show ?thesis unfolding qe ex by simp
  next
    case nsg: False
    define q where "q = scan_digits s q1"
    have qe: "exp_end s p1 = q"
      using mk nsg by (auto simp: exp_end_def Let_def q1_def q_def)
    have b: "q1 \<le> q" "q \<le> max q1 (length s)" using scan_digits_bounds[of q1 s] by (simp_all add: q_def)
    define d where "d = substr s q1 (q - q1)"
    have ex: "substr s p1 (q - p1) = s ! p1 # d"
      using substr_Cons[OF lt, of q] b by (simp add: q1_def d_def)
    have dd: "list_all isdigit d" "q < length s \<longrightarrow> \<not> isdigit (s ! q)"
      using scan_digits_sound[of s q1] by (simp_all add: d_def q_def)
    have nosign: "\<not> (d \<noteq> [] \<and> (hd d = CHR ''+'' \<or> hd d = CHR ''-''))"
    proof (cases d)
      case Nil
      then show ?thesis by simp
    next
      case (Cons x xs)
      with dd(1) have "isdigit x" by simp
      from isdigit_not_others[OF this] Cons show ?thesis by simp
    qed
    have one: "s ! q \<noteq> CHR ''+'' \<and> s ! q \<noteq> CHR ''-''" if "d = []" and "q < length s"
    proof -
      from that b have "q \<le> length s" "q1 \<le> q" by simp_all
      from substr_empty[OF that(1)[unfolded d_def] this(2,1)] have "q = q1" .
      with nsg that(2) show ?thesis by simp
    qed
    from c dd nosign one marker_plain[OF c] show ?thesis unfolding qe ex by auto
  qed
qed

lemma parse_number_sound:
  assumes r: "parse_number m s pos = (out, p)"
    and n1: "out \<noteq> Inl (runtime_error ''Expected number'')"
    and n2: "out \<noteq> Inl (runtime_error ''Invalid number format'')"
  shows "number_token (substr s (skip_whitespace s pos) (p - skip_whitespace s pos)) \<and>
         token_ends (substr s (skip_whitespace s pos) (p - skip_whitespace s pos)) (drop p s) \<and>
         out = (case stod m (substr s (skip_whitespace s pos) (p - skip_whitespace s pos)) of
                  None \<Rightarrow> Inl (runtime_error (''Invalid number: '' @
                            substr s (skip_whitespace s pos) (p - skip_whitespace s pos)))
                | Some v \<Rightarrow> Inr v)"
proof -
  define p0 where "p0 = skip_whitespace s pos"
  have lt: "p0 < length s"
    using r n1 by (auto simp: parse_number_alt Let_def p0_def split: if_splits)
  obtain o1 p1 where sm: "scan_mantissa s p0 False = (o1, p1)" by (cases "scan_mantissa s p0 False")
  have o1: "o1 = Inr ()"
  proof (cases o1)
    case (Inl e)
    with scan_mantissa_throws[of s p0 False e p1] sm have "e = runtime_error ''Invalid number format''"
      by simp
    with r n2 lt sm Inl show ?thesis by (simp add: parse_number_alt Let_def p0_def[symmetric])
  next
    case (Inr u)
    then show ?thesis by simp
  qed
  note sm = sm[unfolded o1]
  from scan_mantissa_bounds[OF sm] lt have b1: "p0 \<le> p1" "p1 \<le> length s" by simp_all
  define q where "q = exp_end s p1"
  from exp_end_bounds[of p1 s] b1 have b2: "p1 \<le> q" "q \<le> length s" by (simp_all add: q_def)
  define l where "l = substr s p0 (q - p0)"
  from r n1 lt sm have ne: "p0 \<noteq> q" and p: "p = q"
    and out: "out = (case stod m l of None \<Rightarrow> Inl (runtime_error (''Invalid number: '' @ l)) | Some v \<Rightarrow> Inr v)"
    by (auto simp: parse_number_alt Let_def p0_def[symmetric] q_def[symmetric] l_def
        split: if_splits option.splits)
  define mant where "mant = substr s p0 (p1 - p0)"
  define ex where "ex = substr s p1 (q - p1)"
  have l: "l = mant @ ex" unfolding l_def mant_def ex_def by (rule substr_split[OF b1(1) b2(1)])
  from scan_mantissa_sound[OF sm]
  have m1: "list_all mantissa_char mant" and m2: "count_list mant CHR ''.'' \<le> 1"
    and m3: "p1 < length s \<longrightarrow> \<not> mantissa_char (s ! p1)"
    by (simp_all add: mant_def)
  from exp_end_sound[OF b1(2)]
  have e1: "exponent_scanned ex" and e2: "ex = [] \<or> \<not> mantissa_char (hd ex)"
    and e3: "q < length s \<longrightarrow>
            (ex = [] \<longrightarrow> s ! q \<noteq> CHR ''e'' \<and> s ! q \<noteq> CHR ''E'') \<and>
            (ex \<noteq> [] \<longrightarrow> \<not> isdigit (s ! q)) \<and>
            (length ex = 1 \<longrightarrow> s ! q \<noteq> CHR ''+'' \<and> s ! q \<noteq> CHR ''-'')"
    by (simp_all add: ex_def q_def)
  from e2 have twe: "takeWhile mantissa_char ex = []" by (cases ex) auto
  have tw: "takeWhile mantissa_char l = mant"
    using m1 twe by (simp add: l list_all_iff takeWhile_append2)
  from e2 have dwe: "dropWhile mantissa_char ex = ex" by (cases ex) auto
  have dw: "dropWhile mantissa_char l = ex"
    using m1 dwe by (simp add: l list_all_iff dropWhile_append2)
  have lne: "l \<noteq> []" using ne b1 b2 lt by (simp add: l_def substr_def)
  have tok: "number_token l"
    using lne m2 e1 by (simp add: number_token_def Let_def tw dw)
  have ends: "token_ends l (drop q s)"
  proof (cases "q < length s")
    case False
    then show ?thesis by (simp add: token_ends_def)
  next
    case True
    then have hd: "hd (drop q s) = s ! q" by (simp add: hd_drop_conv_nth)
    have emp: "\<not> isdigit (s ! q) \<and> s ! q \<noteq> CHR ''.''" if "ex = []"
    proof -
      from substr_empty[OF that[unfolded ex_def] b2] have "q = p1" .
      with m3 True show ?thesis by (simp add: mantissa_char_def)
    qed
    from e3 True emp show ?thesis
      by (auto simp: token_ends_def Let_def dw hd)
  qed
  from tok ends out show ?thesis unfolding p0_def[symmetric] p l_def[symmetric] by simp
qed


lemma literal_number_token: "literal l \<Longrightarrow> number_token l"
proof -
  assume a: "literal l"
  then have m: "takeWhile mantissa_char l \<noteq> []" and c: "count_list (takeWhile mantissa_char l) CHR ''.'' \<le> 1"
    and e: "exponent_ok (dropWhile mantissa_char l)"
    by (simp_all add: literal_def Let_def)
  from m have "l \<noteq> []" by auto
  moreover have "exponent_ok ex \<Longrightarrow> exponent_scanned ex" for ex
    by (cases ex) (simp_all add: Let_def)
  with e have "exponent_scanned (dropWhile mantissa_char l)" by blast
  ultimately show ?thesis using c by (simp add: number_token_def Let_def)
qed

section \<open>A result depends on the consumed text only\<close>




















section \<open>A value is kept when the input goes on\<close>




lemma nth_ext: "q < length u \<Longrightarrow> (u @ rest) ! q = u ! q"
  by (simp add: nth_append)

lemma nth_junction: "rest \<noteq> [] \<Longrightarrow> (u @ rest) ! length u = hd rest"
  by (cases rest) simp_all

lemma skip_whitespace_ext:
  "pos \<le> length u \<Longrightarrow>
     skip_whitespace (u @ rest) pos = cursor_after u rest (skip_whitespace u pos)"
proof (induction u pos rule: skip_whitespace.induct)
  case (1 u pos)
  show ?case
  proof (cases "pos < length u \<and> isspace (u ! pos)")
    case True
    then have eq: "skip_whitespace u pos = skip_whitespace u (pos + 1)"
      by (subst skip_whitespace.simps) simp
    have "skip_whitespace (u @ rest) pos = skip_whitespace (u @ rest) (pos + 1)"
      using True by (subst skip_whitespace.simps) (simp add: nth_append)
    with "1.IH"[OF True] True show ?thesis unfolding eq by simp
  next
    case False
    then have eq: "skip_whitespace u pos = pos" by (subst skip_whitespace.simps) auto
    show ?thesis
    proof (cases "pos < length u")
      case True
      with False have "skip_whitespace (u @ rest) pos = pos"
        by (subst skip_whitespace.simps) (simp add: nth_append)
      with True show ?thesis unfolding eq by (simp add: cursor_after_def)
    next
      case False
      with "1.prems" have "pos = length u" by simp
      then show ?thesis unfolding eq by (simp add: cursor_after_def skip_whitespace_append)
    qed
  qed
qed

lemma skip_whitespace_blanks:
  assumes "length u \<le> q" and "q \<le> length u + length (takeWhile isspace rest)"
  shows "skip_whitespace (u @ rest) q = length u + length (takeWhile isspace rest)"
proof -
  define bl where "bl = takeWhile isspace rest"
  define j where "j = q - length u"
  have j: "j \<le> length bl" "q = length u + j" using assms by (simp_all add: j_def bl_def)
  have "rest = bl @ dropWhile isspace rest" by (simp add: bl_def)
  also have "bl = take j bl @ drop j bl" by simp
  finally have rest: "rest = take j bl @ (drop j bl @ dropWhile isspace rest)"
    by (simp only: append_assoc)
  have all: "\<forall>x\<in>set (drop j bl). isspace x"
    using set_takeWhileD[of _ isspace rest] by (auto simp: bl_def dest: in_set_dropD)
  have stop: "takeWhile isspace (dropWhile isspace rest) = []"
    by (metis (full_types) dropWhile_eq_Nil_conv hd_dropWhile list.collapse takeWhile.simps(2)
        takeWhile_eq_Nil_iff)
  have tw: "takeWhile isspace (drop j bl @ dropWhile isspace rest) = drop j bl"
    using all stop by (simp add: takeWhile_append2)
  have "u @ rest = (u @ take j bl) @ (drop j bl @ dropWhile isspace rest)"
    using rest by simp
  then have "skip_whitespace (u @ rest) (length (u @ take j bl)) =
      length (u @ take j bl) + length (takeWhile isspace (drop j bl @ dropWhile isspace rest))"
    using skip_whitespace_append[of "u @ take j bl" "drop j bl @ dropWhile isspace rest"]
    by (simp only:)
  moreover have "length (u @ take j bl) = q" using j by simp
  ultimately have "skip_whitespace (u @ rest) q = q + length (drop j bl)" by (simp only: tw)
  then show ?thesis using j by (simp add: bl_def[symmetric])
qed

lemma skip_whitespace_from_ext:
  assumes "cursor_ext u rest p p'" and "p \<le> length u"
  shows "skip_whitespace (u @ rest) p' = cursor_after u rest (skip_whitespace u p)"
proof (cases "p < length u")
  case True
  with assms show ?thesis by (simp add: cursor_ext_def skip_whitespace_ext)
next
  case False
  with assms(2) have p: "p = length u" by simp
  have "skip_whitespace u p = p" unfolding p by (subst skip_whitespace.simps) simp
  moreover from assms(1) p have "length u \<le> p'" "p' \<le> length u + length (takeWhile isspace rest)"
    by (simp_all add: cursor_ext_def)
  ultimately show ?thesis using p by (simp add: skip_whitespace_blanks cursor_after_def)
qed








lemma cursor_after_le: "p \<le> length u \<Longrightarrow> cursor_after u rest p \<le> length (u @ rest)"
proof -
  have "length (takeWhile isspace rest) \<le> length rest" by (rule length_takeWhile_le)
  then show "p \<le> length u \<Longrightarrow> cursor_after u rest p \<le> length (u @ rest)"
    by (simp add: cursor_after_def)
qed














section \<open>Claims\<close>

text \<open>
  C1. The help text of the program lists \<^verbatim>\<open>ln(e^2)\<close> among its examples. On that input the
  identifier branch of \<open>parse_factor\<close> returns the constant \<open>e\<close> without looking for a
  power operator, so the argument of \<open>ln\<close> ends in front of \<open>^\<close>, where a closing
  parenthesis is required: \<open>evaluate\<close> throws "Mismatched parentheses in function call"
  with the cursor at offset 4, for every interpretation of the numeric primitives.
\<close>

theorem ln_e_squared_throws:
  "evaluate m (new_ExpressionParser m) ''ln(e^2)'' =
     Some (Inl (runtime_error ''Mismatched parentheses in function call''),
           (new_ExpressionParser m)\<lparr>m_input := ''ln(e^2)'', m_pos := 4\<rparr>)"
  by (rule evaluate_eq[where n = 8]) (simp add: descent_numeral scans registry)

text \<open>
  C4. Every expression built from numeric literals, the operators \<open>+ - * / %\<close>,
  parentheses and blanks (here also with signs and powers as factors) evaluates to the
  value of its tree: the operators of one tier are applied from left to right, grouped
  to the left, and \<open>* / %\<close> bind tighter than \<open>+ -\<close>. The text may be followed by
  anything that does not continue the expression. An exception of the tree (a literal
  that \<^verbatim>\<open>std::stod\<close> rejects, a division or a modulo by zero) is the exception of
  \<open>evaluate\<close>. In the arithmetic of doubles: \<open>a - b - c\<close> is the difference of
  (the difference of \<open>a\<close> and \<open>b\<close>) and \<open>c\<close>, \<open>a / b / c\<close> is the quotient of (the quotient of
  \<open>a\<close> and \<open>b\<close>) and \<open>c\<close>, and \<open>a + b * c\<close> is the sum of \<open>a\<close> and (the product of \<open>b\<close> and \<open>c\<close>).
  With the exact primitives, \<^verbatim>\<open>2 + 2 * 3\<close> is 8, \<^verbatim>\<open>(2 + 3) * 4\<close> is 20,
  \<^verbatim>\<open>20 - 8/4/2 - 3\<close> is 16 and \<^verbatim>\<open>10-4-3\<close> is 3.
\<close>

theorem tiers_left_to_right:
  assumes "is_expr e" and "stops_expression rest"
  shows "(\<exists>p. evaluate m P (unparse e @ rest) =
               Some (tree_value m e, P\<lparr>m_input := unparse e @ rest, m_pos := p\<rparr>) \<and>
             (isl (tree_value m e) \<or> p = length (unparse e) + length (takeWhile isspace rest))) \<and>
         (\<forall>a b c w1 w2 x y z.
            is_expr a \<and> is_term b \<and> is_term c \<and> blank w1 \<and> blank w2 \<and>
            tree_value m a = Inr x \<and> tree_value m b = Inr y \<and> tree_value m c = Inr z \<longrightarrow>
            evaluate m P (unparse a @ w1 @ ''-'' @ unparse b @ w2 @ ''-'' @ unparse c @ rest) =
              Some (Inr (dsub m (dsub m x y) z),
                    P\<lparr>m_input := unparse a @ w1 @ ''-'' @ unparse b @ w2 @ ''-'' @ unparse c @ rest,
                      m_pos := length (unparse a @ w1 @ ''-'' @ unparse b @ w2 @ ''-'' @ unparse c) +
                               length (takeWhile isspace rest)\<rparr>)) \<and>
         (\<forall>a b c w1 w2 x y z.
            is_term a \<and> is_factor b \<and> is_factor c \<and> blank w1 \<and> blank w2 \<and>
            tree_value m a = Inr x \<and> tree_value m b = Inr y \<and> tree_value m c = Inr z \<and>
            \<not> deq m y (dlit m 0) \<and> \<not> deq m z (dlit m 0) \<longrightarrow>
            evaluate m P (unparse a @ w1 @ ''/'' @ unparse b @ w2 @ ''/'' @ unparse c @ rest) =
              Some (Inr (ddiv m (ddiv m x y) z),
                    P\<lparr>m_input := unparse a @ w1 @ ''/'' @ unparse b @ w2 @ ''/'' @ unparse c @ rest,
                      m_pos := length (unparse a @ w1 @ ''/'' @ unparse b @ w2 @ ''/'' @ unparse c) +
                               length (takeWhile isspace rest)\<rparr>)) \<and>
         (\<forall>a b c w1 w2 x y z.
            is_expr a \<and> is_term b \<and> is_factor c \<and> blank w1 \<and> blank w2 \<and>
            tree_value m a = Inr x \<and> tree_value m b = Inr y \<and> tree_value m c = Inr z \<longrightarrow>
            evaluate m P (unparse a @ w1 @ ''+'' @ unparse b @ w2 @ ''*'' @ unparse c @ rest) =
              Some (Inr (dadd m x (dmul m y z)),
                    P\<lparr>m_input := unparse a @ w1 @ ''+'' @ unparse b @ w2 @ ''*'' @ unparse c @ rest,
                      m_pos := length (unparse a @ w1 @ ''+'' @ unparse b @ w2 @ ''*'' @ unparse c) +
                               length (takeWhile isspace rest)\<rparr>))"
proof -
  let ?fs = "m_functions P" and ?cs = "m_constants P"
  note st = assms(2)
  from tree_correct[of e m ?fs ?cs] assms(1) stops_weaken(1)[OF assms(2)]
  have "continues (run_expression m ?fs ?cs ([] @ unparse e @ rest) (length ([]::string))) (tree_value m e)
         (\<lambda>v. run_expression_loop m ?fs ?cs ([] @ unparse e @ rest) v
                 (length ([]::string) + length (unparse e) + length (takeWhile isspace rest)))"
    by blast
  from expression_final[OF this assms(2)]
  have c: "continues (run_expression m ?fs ?cs (unparse e @ rest) 0) (tree_value m e)
         (\<lambda>v. Some (Inr v, length (unparse e) + length (takeWhile isspace rest)))"
    by simp
  have main: "\<exists>p. evaluate m P (unparse e @ rest) =
               Some (tree_value m e, P\<lparr>m_input := unparse e @ rest, m_pos := p\<rparr>) \<and>
             (isl (tree_value m e) \<or> p = length (unparse e) + length (takeWhile isspace rest))"
  proof (cases "tree_value m e")
    case (Inl x)
    with c show ?thesis by (auto simp: evaluate_run)
  next
    case (Inr v)
    with c show ?thesis by (auto simp: evaluate_run)
  qed
  have sub: "evaluate m P (unparse a @ w1 @ ''-'' @ unparse b @ w2 @ ''-'' @ unparse c @ rest) =
              Some (Inr (dsub m (dsub m x y) z),
                    P\<lparr>m_input := unparse a @ w1 @ ''-'' @ unparse b @ w2 @ ''-'' @ unparse c @ rest,
                      m_pos := length (unparse a @ w1 @ ''-'' @ unparse b @ w2 @ ''-'' @ unparse c) +
                               length (takeWhile isspace rest)\<rparr>)"
    if h: "is_expr a \<and> is_term b \<and> is_term c \<and> blank w1 \<and> blank w2 \<and>
            tree_value m a = Inr x \<and> tree_value m b = Inr y \<and> tree_value m c = Inr z"
    for a b c w1 w2 x y z
  proof -
    let ?t = "Bin (Bin a w1 Op_sub b) w2 Op_sub c"
    have e: "is_expr ?t" using h by simp
    have v: "tree_value m ?t = Inr (dsub m (dsub m x y) z)"
      using h by (simp add: sc_subtract_def)
    from evaluate_tree_value[OF e st v, of P] show ?thesis by simp
  qed
  have quot: "evaluate m P (unparse a @ w1 @ ''/'' @ unparse b @ w2 @ ''/'' @ unparse c @ rest) =
              Some (Inr (ddiv m (ddiv m x y) z),
                    P\<lparr>m_input := unparse a @ w1 @ ''/'' @ unparse b @ w2 @ ''/'' @ unparse c @ rest,
                      m_pos := length (unparse a @ w1 @ ''/'' @ unparse b @ w2 @ ''/'' @ unparse c) +
                               length (takeWhile isspace rest)\<rparr>)"
    if h: "is_term a \<and> is_factor b \<and> is_factor c \<and> blank w1 \<and> blank w2 \<and>
            tree_value m a = Inr x \<and> tree_value m b = Inr y \<and> tree_value m c = Inr z \<and>
            \<not> deq m y (dlit m 0) \<and> \<not> deq m z (dlit m 0)"
    for a b c w1 w2 x y z
  proof -
    let ?t = "Bin (Bin a w1 Op_div b) w2 Op_div c"
    have e: "is_expr ?t" using h by simp
    have v: "tree_value m ?t = Inr (ddiv m (ddiv m x y) z)"
      using h by (simp add: sc_divide_def)
    from evaluate_tree_value[OF e st v, of P] show ?thesis by simp
  qed
  have tier: "evaluate m P (unparse a @ w1 @ ''+'' @ unparse b @ w2 @ ''*'' @ unparse c @ rest) =
              Some (Inr (dadd m x (dmul m y z)),
                    P\<lparr>m_input := unparse a @ w1 @ ''+'' @ unparse b @ w2 @ ''*'' @ unparse c @ rest,
                      m_pos := length (unparse a @ w1 @ ''+'' @ unparse b @ w2 @ ''*'' @ unparse c) +
                               length (takeWhile isspace rest)\<rparr>)"
    if h: "is_expr a \<and> is_term b \<and> is_factor c \<and> blank w1 \<and> blank w2 \<and>
            tree_value m a = Inr x \<and> tree_value m b = Inr y \<and> tree_value m c = Inr z"
    for a b c w1 w2 x y z
  proof -
    let ?t = "Bin a w1 Op_add (Bin b w2 Op_mul c)"
    have e: "is_expr ?t" using h by simp
    have v: "tree_value m ?t = Inr (dadd m x (dmul m y z))"
      using h by (simp add: sc_add_def sc_multiply_def)
    from evaluate_tree_value[OF e st v, of P] show ?thesis by simp
  qed
  from main sub quot tier show ?thesis by blast
qed

theorem tiers_left_to_right_witness:
  "is_expr (Bin (Num [] ''2'') '' '' Op_add (Bin (Num '' '' ''2'') '' '' Op_mul (Num '' '' ''3''))) \<and>
   is_expr (Bin (Paren [] (Bin (Num [] ''2'') '' '' Op_add (Num '' '' ''3'')) []) '' '' Op_mul (Num '' '' ''4'')) \<and>
   is_expr (Bin (Bin (Num [] ''20'') '' '' Op_sub
                  (Bin (Bin (Num '' '' ''8'') [] Op_div (Num [] ''4'')) [] Op_div (Num [] ''2'')))
              '' '' Op_sub (Num '' '' ''3'')) \<and>
   stops_expression [] \<and>
   evaluate exact_math (new_ExpressionParser exact_math) ''2 + 2 * 3'' =
     Some (Inr 8, (new_ExpressionParser exact_math)\<lparr>m_input := ''2 + 2 * 3'', m_pos := 9\<rparr>) \<and>
   evaluate exact_math (new_ExpressionParser exact_math) ''(2 + 3) * 4'' =
     Some (Inr 20, (new_ExpressionParser exact_math)\<lparr>m_input := ''(2 + 3) * 4'', m_pos := 11\<rparr>) \<and>
   evaluate exact_math (new_ExpressionParser exact_math) ''20 - 8/4/2 - 3'' =
     Some (Inr 16, (new_ExpressionParser exact_math)\<lparr>m_input := ''20 - 8/4/2 - 3'', m_pos := 14\<rparr>) \<and>
   is_expr (Num [] ''10'') \<and> is_term (Num [] ''4'') \<and> is_term (Num [] ''3'') \<and> blank [] \<and>
   tree_value exact_math (Num [] ''10'') = Inr 10 \<and> tree_value exact_math (Num [] ''4'') = Inr 4 \<and>
   tree_value exact_math (Num [] ''3'') = Inr 3 \<and>
   evaluate exact_math (new_ExpressionParser exact_math) ''10-4-3'' =
     Some (Inr 3, (new_ExpressionParser exact_math)\<lparr>m_input := ''10-4-3'', m_pos := 6\<rparr>)"
proof -
  let ?P = "new_ExpressionParser exact_math"
  let ?e1 = "Bin (Num [] ''2'') '' '' Op_add (Bin (Num '' '' ''2'') '' '' Op_mul (Num '' '' ''3''))"
  let ?e2 = "Bin (Paren [] (Bin (Num [] ''2'') '' '' Op_add (Num '' '' ''3'')) []) '' '' Op_mul (Num '' '' ''4'')"
  let ?e3 = "Bin (Bin (Num [] ''20'') '' '' Op_sub
                  (Bin (Bin (Num '' '' ''8'') [] Op_div (Num [] ''4'')) [] Op_div (Num [] ''2'')))
              '' '' Op_sub (Num '' '' ''3'')"
  have w1: "is_expr ?e1" and w2: "is_expr ?e2" and w3: "is_expr ?e3"
    by (simp_all add: blank_def literal_def mantissa_char_def chars)
  have st: "stops_expression []"
    by (simp add: stops_expression_def stops_term_def stops_factor_def literal_ends_def)
  have v1: "tree_value exact_math ?e1 = Inr 8" and v2: "tree_value exact_math ?e2 = Inr 20"
    and v3: "tree_value exact_math ?e3 = Inr 16"
    by (simp_all add: exacts calc chars)
  have u1: "unparse ?e1 @ [] = ''2 + 2 * 3''" and u2: "unparse ?e2 @ [] = ''(2 + 3) * 4''"
    and u3: "unparse ?e3 @ [] = ''20 - 8/4/2 - 3''"
    by simp_all
  have l1: "length (unparse ?e1) + length (takeWhile isspace []) = 9"
    and l2: "length (unparse ?e2) + length (takeWhile isspace []) = 11"
    and l3: "length (unparse ?e3) + length (takeWhile isspace []) = 14"
    by simp_all
  from tiers_left_to_right[OF w1 st, of exact_math ?P]
  have "\<exists>p. evaluate exact_math ?P (unparse ?e1 @ []) =
               Some (tree_value exact_math ?e1, ?P\<lparr>m_input := unparse ?e1 @ [], m_pos := p\<rparr>) \<and>
             (isl (tree_value exact_math ?e1) \<or> p = length (unparse ?e1) + length (takeWhile isspace []))"
    by (rule conjunct1)
  then have r1: "evaluate exact_math ?P ''2 + 2 * 3'' =
     Some (Inr 8, ?P\<lparr>m_input := ''2 + 2 * 3'', m_pos := 9\<rparr>)"
    unfolding v1 u1 l1 by auto
  from tiers_left_to_right[OF w2 st, of exact_math ?P]
  have "\<exists>p. evaluate exact_math ?P (unparse ?e2 @ []) =
               Some (tree_value exact_math ?e2, ?P\<lparr>m_input := unparse ?e2 @ [], m_pos := p\<rparr>) \<and>
             (isl (tree_value exact_math ?e2) \<or> p = length (unparse ?e2) + length (takeWhile isspace []))"
    by (rule conjunct1)
  then have r2: "evaluate exact_math ?P ''(2 + 3) * 4'' =
     Some (Inr 20, ?P\<lparr>m_input := ''(2 + 3) * 4'', m_pos := 11\<rparr>)"
    unfolding v2 u2 l2 by auto
  from tiers_left_to_right[OF w3 st, of exact_math ?P]
  have "\<exists>p. evaluate exact_math ?P (unparse ?e3 @ []) =
               Some (tree_value exact_math ?e3, ?P\<lparr>m_input := unparse ?e3 @ [], m_pos := p\<rparr>) \<and>
             (isl (tree_value exact_math ?e3) \<or> p = length (unparse ?e3) + length (takeWhile isspace []))"
    by (rule conjunct1)
  then have r3: "evaluate exact_math ?P ''20 - 8/4/2 - 3'' =
     Some (Inr 16, ?P\<lparr>m_input := ''20 - 8/4/2 - 3'', m_pos := 14\<rparr>)"
    unfolding v3 u3 l3 by auto
  have h: "is_expr (Num [] ''10'')" "is_term (Num [] ''4'')" "is_term (Num [] ''3'')" "blank []"
    "tree_value exact_math (Num [] ''10'') = Inr 10" "tree_value exact_math (Num [] ''4'') = Inr 4"
    "tree_value exact_math (Num [] ''3'') = Inr 3"
    by (simp_all add: blank_def literal_def mantissa_char_def chars exacts)
  have d: "dsub exact_math (dsub exact_math 10 4) 3 = 3" by (simp add: exacts)
  from tiers_left_to_right[OF w1 st, of exact_math ?P, THEN conjunct2, THEN conjunct1, rule_format,
      of "Num [] ''10''" "Num [] ''4''" "Num [] ''3''" "[]" "[]" 10 4 3] h
  have r4: "evaluate exact_math ?P ''10-4-3'' =
     Some (Inr 3, ?P\<lparr>m_input := ''10-4-3'', m_pos := 6\<rparr>)"
    unfolding d by simp
  from w1 w2 w3 st r1 r2 r3 h r4 show ?thesis by blast
qed

text \<open>
  C8. A number with two decimal points is not repaired: when the digits and points that
  start a number hold a second point, \<open>parse_number\<close> throws "Invalid number format" with
  the cursor on that point, wherever the number stands, and so does \<open>evaluate\<close> on a text
  that starts with such a number. \<^verbatim>\<open>1.2.3\<close> is the case of one digit before each point.
\<close>

theorem two_points_rejected:
  assumes "blank ws" and "list_all isdigit d1" and "list_all isdigit d2"
  shows "parse_number m (pre @ ws @ d1 @ ''.'' @ d2 @ ''.'' @ rest) (length pre) =
           (Inl (runtime_error ''Invalid number format''),
            length pre + length ws + length d1 + 1 + length d2) \<and>
         evaluate m P (ws @ d1 @ ''.'' @ d2 @ ''.'' @ rest) =
           Some (Inl (runtime_error ''Invalid number format''),
                 P\<lparr>m_input := ws @ d1 @ ''.'' @ d2 @ ''.'' @ rest,
                   m_pos := length ws + length d1 + 1 + length d2\<rparr>)"
proof -
  let ?tok = "d1 @ CHR ''.'' # d2 @ CHR ''.'' # rest"
  have hd_tok: "?tok \<noteq> [] \<and> (isdigit (hd ?tok) \<or> hd ?tok = CHR ''.'')"
    using assms(2) by (cases d1) auto
  then have plain: "\<not> isspace (hd ?tok)" "\<not> isalpha (hd ?tok)" "hd ?tok \<noteq> CHR ''-''"
    "hd ?tok \<noteq> CHR ''+''" "hd ?tok \<noteq> CHR ''(''"
    using isdigit_not_others[of "hd ?tok"] by auto
  define s where "s = ws @ ?tok"
  define p0 where "p0 = length ws"
  define q where "q = length ws + length d1 + 1 + length d2"
  have sk: "skip_whitespace s 0 = p0"
    using skip_blank[OF assms(1), of ?tok "[]"] plain(1) by (simp add: s_def p0_def)
  have c0: "s ! p0 = hd ?tok" "p0 < length s"
    using hd_tok nth_append_length[of ws "hd ?tok" "tl ?tok"] by (simp_all add: s_def p0_def)
  have "blank []" by (simp add: blank_def)
  from parse_number_two_points[OF this assms(2,3), of m ws rest]
  have pn0: "parse_number m s p0 = (Inl (runtime_error ''Invalid number format''), q)"
    by (simp add: s_def p0_def q_def)
  have "run_factor m (m_functions P) (m_constants P) s 0 =
          Some (Inl (runtime_error ''Invalid number format''), q)"
    using c0(2) plain(2-5) by (subst run_factor_eq) (simp add: Let_def sk c0(1) pn0)
  from evaluate_factor_throws[OF this] parse_number_two_points[OF assms, of m pre rest]
  show ?thesis by (simp add: s_def q_def)
qed

theorem two_points_rejected_witness:
  "blank [] \<and> list_all isdigit ''1'' \<and> list_all isdigit ''2'' \<and>
   evaluate exact_math (new_ExpressionParser exact_math) ''1.2.3'' =
     Some (Inl (runtime_error ''Invalid number format''),
           (new_ExpressionParser exact_math)\<lparr>m_input := ''1.2.3'', m_pos := 3\<rparr>)"
proof -
  have h: "blank []" "list_all isdigit ''1''" "list_all isdigit ''2''"
    by (simp_all add: blank_def isdigit_def)
  from two_points_rejected[OF h, of exact_math "[]" "''3''" "new_ExpressionParser exact_math"] h
  show ?thesis by simp
qed

text \<open>
  C9. The cursor stays inside the input and never moves back: every parsing function of
  the evaluator, every loop of it included, started with the cursor at \<open>pos \<le> length s\<close>,
  leaves it at some \<open>p\<close> with \<open>pos \<le> p \<le> length s\<close>, whether it returns a value or throws.
  \<open>evaluate\<close> starts the cursor at 0 whatever it was before, always returns, and leaves
  the cursor inside the input.
\<close>

theorem cursor_invariant:
  assumes "pos \<le> length s"
  shows "(\<forall>out p. parse_expression m fs cs s n pos = Some (out, p) \<longrightarrow> pos \<le> p \<and> p \<le> length s) \<and>
         (\<forall>r out p. expression_loop m fs cs s n r pos = Some (out, p) \<longrightarrow> pos \<le> p \<and> p \<le> length s) \<and>
         (\<forall>out p. parse_term m fs cs s n pos = Some (out, p) \<longrightarrow> pos \<le> p \<and> p \<le> length s) \<and>
         (\<forall>r out p. term_loop m fs cs s n r pos = Some (out, p) \<longrightarrow> pos \<le> p \<and> p \<le> length s) \<and>
         (\<forall>out p. parse_factor m fs cs s n pos = Some (out, p) \<longrightarrow> pos \<le> p \<and> p \<le> length s) \<and>
         (\<forall>out p. parse_number m s pos = (out, p) \<longrightarrow> pos \<le> p \<and> p \<le> length s) \<and>
         (\<forall>out p h. scan_mantissa s pos h = (out, p) \<longrightarrow> pos \<le> p \<and> p \<le> length s) \<and>
         (\<forall>name name' p. scan_identifier s pos name = (name', p) \<longrightarrow> pos \<le> p \<and> p \<le> length s) \<and>
         pos \<le> scan_digits s pos \<and> scan_digits s pos \<le> length s \<and>
         pos \<le> skip_whitespace s pos \<and> skip_whitespace s pos \<le> length s \<and>
         (\<forall>P. \<exists>out p. evaluate m P s = Some (out, P\<lparr>m_input := s, m_pos := p\<rparr>) \<and> p \<le> length s)"
proof -
  note mx = max_inside[OF assms]
  show ?thesis
    using descent_bounds[where m = m and fs = fs and cs = cs and s = s and n = n and pos = pos] parse_number_bounds[of m s pos]
      scan_mantissa_bounds[of s pos] scan_identifier_bounds[of s pos]
      scan_digits_bounds[of pos s] skip_whitespace_bounds[of pos s] evaluate_returns[of m _ s]
    unfolding mx by blast
qed

theorem cursor_invariant_witness:
  "(0::nat) \<le> length ''2+3'' \<and>
   parse_expression exact_math Map.empty Map.empty ''2+3'' 12 0 = Some (Inr 5, 3) \<and>
   expression_loop exact_math Map.empty Map.empty ''2+3'' 12 2 0 = Some (Inr 2, 0) \<and>
   parse_term exact_math Map.empty Map.empty ''2+3'' 12 0 = Some (Inr 2, 1) \<and>
   term_loop exact_math Map.empty Map.empty ''2+3'' 12 2 0 = Some (Inr 2, 0) \<and>
   parse_factor exact_math Map.empty Map.empty ''2+3'' 12 0 = Some (Inr 2, 1) \<and>
   parse_number exact_math ''2+3'' 0 = (Inr 2, 1) \<and>
   scan_mantissa ''2+3'' 0 False = (Inr (), 1) \<and>
   scan_identifier ''2+3'' 0 [] = (''2'', 1) \<and>
   (0::nat) \<le> 3 \<and> (3::nat) \<le> length ''2+3'' \<and> (1::nat) \<le> length ''2+3''"
proof -
  have e: "parse_expression exact_math Map.empty Map.empty ''2+3'' 12 0 = Some (Inr 5, 3)"
    "expression_loop exact_math Map.empty Map.empty ''2+3'' 12 2 0 = Some (Inr 2, 0)"
    "parse_term exact_math Map.empty Map.empty ''2+3'' 12 0 = Some (Inr 2, 1)"
    "term_loop exact_math Map.empty Map.empty ''2+3'' 12 2 0 = Some (Inr 2, 0)"
    "parse_factor exact_math Map.empty Map.empty ''2+3'' 12 0 = Some (Inr 2, 1)"
    "parse_number exact_math ''2+3'' 0 = (Inr 2, 1)"
    "scan_mantissa ''2+3'' 0 False = (Inr (), 1)"
    "scan_identifier ''2+3'' 0 [] = (''2'', 1)"
    by (simp_all add: descent_numeral scans exacts calc)
  from cursor_invariant[of 0 "''2+3''" exact_math Map.empty Map.empty 12] e
  show ?thesis by simp
qed

text \<open>
  C3. The power operator groups to the right: the exponent is read by \<open>parse_factor\<close>
  itself, so for bases \<open>a\<close>, \<open>b\<close> (a literal or a group in parentheses) and a factor \<open>c\<close> the
  text \<open>a ^ b ^ c\<close> evaluates to \<open>a\<close> raised to (\<open>b\<close> raised to \<open>c\<close>), for every interpretation
  of \<^verbatim>\<open>std::pow\<close>. With the exact primitives \<^verbatim>\<open>2^3^2\<close> is 512.
\<close>

theorem power_right_assoc:
  assumes "is_base a" and "is_factor a" and "is_base b" and "is_factor b" and "is_factor c"
    and "blank w1" and "blank w2" and "stops_expression rest"
    and "tree_value m a = Inr x" and "tree_value m b = Inr y" and "tree_value m c = Inr z"
  shows "evaluate m P (unparse a @ w1 @ ''^'' @ unparse b @ w2 @ ''^'' @ unparse c @ rest) =
           Some (Inr (sc_power m x (sc_power m y z)),
                 P\<lparr>m_input := unparse a @ w1 @ ''^'' @ unparse b @ w2 @ ''^'' @ unparse c @ rest,
                   m_pos := length (unparse a @ w1 @ ''^'' @ unparse b @ w2 @ ''^'' @ unparse c)
                            + length (takeWhile isspace rest)\<rparr>)"
proof -
  let ?e = "Pow a w1 (Pow b w2 c)"
  have "is_factor ?e" using assms by simp
  then have e: "is_expr ?e" by (simp add: is_factor_levels)
  have v: "tree_value m ?e = Inr (sc_power m x (sc_power m y z))" using assms by simp
  from evaluate_tree_value[OF e assms(8) v, of P] show ?thesis by simp
qed

theorem power_right_assoc_witness:
  "is_base (Num [] ''2'') \<and> is_factor (Num [] ''2'') \<and> is_base (Num [] ''3'') \<and> is_factor (Num [] ''3'') \<and>
   blank [] \<and> stops_expression [] \<and>
   tree_value exact_math (Num [] ''2'') = Inr 2 \<and> tree_value exact_math (Num [] ''3'') = Inr 3 \<and>
   evaluate exact_math (new_ExpressionParser exact_math) ''2^3^2'' =
     Some (Inr 512, (new_ExpressionParser exact_math)\<lparr>m_input := ''2^3^2'', m_pos := 5\<rparr>)"
proof -
  have h: "is_base (Num [] ''2'')" "is_factor (Num [] ''2'')" "is_base (Num [] ''3'')"
    "is_factor (Num [] ''3'')" "is_factor (Num [] ''2'')" "blank []" "blank []" "stops_expression []"
    "tree_value exact_math (Num [] ''2'') = Inr 2" "tree_value exact_math (Num [] ''3'') = Inr 3"
    "tree_value exact_math (Num [] ''2'') = Inr 2"
    by (simp_all add: blank_def literal_def mantissa_char_def chars exacts
        stops_expression_def stops_term_def stops_factor_def literal_ends_def)
  have p: "sc_power exact_math 2 (sc_power exact_math 3 2) = 512"
    by (simp add: sc_power_def exacts)
  from power_right_assoc[OF h, of "new_ExpressionParser exact_math"] h
  show ?thesis by (simp add: p)
qed


text \<open>
  C7. \<open>divide\<close> and \<open>modulo\<close> of StandardCalculator throw a domain error exactly when the
  right operand compares equal to zero, and the grammar adds no check of its own: for a
  term \<open>a\<close> and a factor \<open>b\<close> with values \<open>x\<close> and \<open>y\<close>, \<open>a / b\<close> and \<open>a % b\<close> throw
  "Division by zero" and "Modulo by zero" when \<open>y == 0.0\<close>, and evaluate to the quotient
  and to \<^verbatim>\<open>std::fmod\<close> otherwise. \<^verbatim>\<open>10 / 0\<close> throws.
\<close>

theorem zero_divisor:
  assumes "is_term a" and "is_factor b" and "blank w" and "stops_expression rest"
    and "tree_value m a = Inr x" and "tree_value m b = Inr y"
  shows "((\<exists>msg. sc_divide m u v = Inl (domain_error msg)) \<longleftrightarrow> deq m v (dlit m 0)) \<and>
         ((\<exists>msg. sc_modulo m u v = Inl (domain_error msg)) \<longleftrightarrow> deq m v (dlit m 0)) \<and>
         (deq m y (dlit m 0) \<longrightarrow>
            (\<exists>p. evaluate m P (unparse a @ w @ ''/'' @ unparse b @ rest) =
                   Some (Inl (domain_error ''Division by zero''),
                         P\<lparr>m_input := unparse a @ w @ ''/'' @ unparse b @ rest, m_pos := p\<rparr>)) \<and>
            (\<exists>p. evaluate m P (unparse a @ w @ ''%'' @ unparse b @ rest) =
                   Some (Inl (domain_error ''Modulo by zero''),
                         P\<lparr>m_input := unparse a @ w @ ''%'' @ unparse b @ rest, m_pos := p\<rparr>))) \<and>
         (\<not> deq m y (dlit m 0) \<longrightarrow>
            evaluate m P (unparse a @ w @ ''/'' @ unparse b @ rest) =
                   Some (Inr (ddiv m x y),
                         P\<lparr>m_input := unparse a @ w @ ''/'' @ unparse b @ rest,
                           m_pos := length (unparse a @ w @ ''/'' @ unparse b) +
                                    length (takeWhile isspace rest)\<rparr>) \<and>
            evaluate m P (unparse a @ w @ ''%'' @ unparse b @ rest) =
                   Some (Inr (std_fmod m x y),
                         P\<lparr>m_input := unparse a @ w @ ''%'' @ unparse b @ rest,
                           m_pos := length (unparse a @ w @ ''%'' @ unparse b) +
                                    length (takeWhile isspace rest)\<rparr>))"
proof -
  let ?d = "Bin a w Op_div b" and ?r = "Bin a w Op_mod b"
  have e: "is_expr ?d" "is_expr ?r" using assms by simp_all
  have u: "unparse ?d @ rest = unparse a @ w @ ''/'' @ unparse b @ rest"
    "unparse ?r @ rest = unparse a @ w @ ''%'' @ unparse b @ rest"
    by simp_all
  have vd: "tree_value m ?d = sc_divide m x y" and vr: "tree_value m ?r = sc_modulo m x y"
    using assms by simp_all
  note st = assms(4)
  have prim: "((\<exists>msg. sc_divide m u v = Inl (domain_error msg)) \<longleftrightarrow> deq m v (dlit m 0))"
    "((\<exists>msg. sc_modulo m u v = Inl (domain_error msg)) \<longleftrightarrow> deq m v (dlit m 0))"
    by (auto simp: sc_divide_def sc_modulo_def)
  have zero: "\<exists>p. evaluate m P (unparse a @ w @ ''/'' @ unparse b @ rest) =
                   Some (Inl (domain_error ''Division by zero''),
                         P\<lparr>m_input := unparse a @ w @ ''/'' @ unparse b @ rest, m_pos := p\<rparr>)"
    "\<exists>p. evaluate m P (unparse a @ w @ ''%'' @ unparse b @ rest) =
                   Some (Inl (domain_error ''Modulo by zero''),
                         P\<lparr>m_input := unparse a @ w @ ''%'' @ unparse b @ rest, m_pos := p\<rparr>)"
    if "deq m y (dlit m 0)"
    using evaluate_tree_throws[OF e(1) st, of m "domain_error ''Division by zero''" P]
      evaluate_tree_throws[OF e(2) st, of m "domain_error ''Modulo by zero''" P] that
    unfolding u vd vr by (simp_all add: sc_divide_def sc_modulo_def)
  have nonzero: "evaluate m P (unparse a @ w @ ''/'' @ unparse b @ rest) =
                   Some (Inr (ddiv m x y),
                         P\<lparr>m_input := unparse a @ w @ ''/'' @ unparse b @ rest,
                           m_pos := length (unparse a @ w @ ''/'' @ unparse b) +
                                    length (takeWhile isspace rest)\<rparr>)"
    "evaluate m P (unparse a @ w @ ''%'' @ unparse b @ rest) =
                   Some (Inr (std_fmod m x y),
                         P\<lparr>m_input := unparse a @ w @ ''%'' @ unparse b @ rest,
                           m_pos := length (unparse a @ w @ ''%'' @ unparse b) +
                                    length (takeWhile isspace rest)\<rparr>)"
    if "\<not> deq m y (dlit m 0)"
    using evaluate_tree_value[OF e(1) st, of m "ddiv m x y" P]
      evaluate_tree_value[OF e(2) st, of m "std_fmod m x y" P] that
    unfolding u vd vr by (simp_all add: sc_divide_def sc_modulo_def)
  from prim zero nonzero show ?thesis by blast
qed

theorem zero_divisor_witness:
  "is_term (Num [] ''10'') \<and> is_factor (Num '' '' ''0'') \<and> blank '' '' \<and> stops_expression [] \<and>
   tree_value exact_math (Num [] ''10'') = Inr 10 \<and> tree_value exact_math (Num '' '' ''0'') = Inr 0 \<and>
   deq exact_math 0 (dlit exact_math 0) \<and>
   (\<exists>p. evaluate exact_math (new_ExpressionParser exact_math) ''10 / 0'' =
          Some (Inl (domain_error ''Division by zero''),
                (new_ExpressionParser exact_math)\<lparr>m_input := ''10 / 0'', m_pos := p\<rparr>)) \<and>
   is_factor (Num '' '' ''4'') \<and> tree_value exact_math (Num '' '' ''4'') = Inr 4 \<and>
   \<not> deq exact_math 4 (dlit exact_math 0) \<and>
   evaluate exact_math (new_ExpressionParser exact_math) ''10 / 4'' =
          Some (Inr (5 / 2), (new_ExpressionParser exact_math)\<lparr>m_input := ''10 / 4'', m_pos := 6\<rparr>)"
proof -
  have h: "is_term (Num [] ''10'')" "is_factor (Num '' '' ''0'')" "blank '' ''" "stops_expression []"
    "tree_value exact_math (Num [] ''10'') = Inr 10" "tree_value exact_math (Num '' '' ''0'') = Inr 0"
    by (simp_all add: blank_def literal_def mantissa_char_def chars exacts
        stops_expression_def stops_term_def stops_factor_def literal_ends_def)
  have h4: "is_factor (Num '' '' ''4'')" "tree_value exact_math (Num '' '' ''4'') = Inr 4"
    by (simp_all add: blank_def literal_def mantissa_char_def chars exacts)
  have z: "deq exact_math 0 (dlit exact_math 0)" "\<not> deq exact_math 4 (dlit exact_math 0)"
    by (simp_all add: exacts)
  have q: "ddiv exact_math 10 4 = 5 / 2" by (simp add: exacts)
  from zero_divisor[OF h, of 0 0 "new_ExpressionParser exact_math"] z(1)
  have a: "\<exists>p. evaluate exact_math (new_ExpressionParser exact_math) ''10 / 0'' =
          Some (Inl (domain_error ''Division by zero''),
                (new_ExpressionParser exact_math)\<lparr>m_input := ''10 / 0'', m_pos := p\<rparr>)"
    by simp
  from zero_divisor[OF h(1) h4(1) h(3,4,5) h4(2), of 0 0 "new_ExpressionParser exact_math"] z(2)
  have b: "evaluate exact_math (new_ExpressionParser exact_math) ''10 / 4'' =
          Some (Inr (5 / 2), (new_ExpressionParser exact_math)\<lparr>m_input := ''10 / 4'', m_pos := 6\<rparr>)"
    by (simp add: q)
  from h h4 z a b show ?thesis by blast
qed

text \<open>
  C2. Where \<open>parse_factor\<close> looks for \<open>^\<close>. Let \<open>p0\<close> be the first offset from the cursor
  that holds no blank. If a sign stands there, the result is that of the factor behind
  the sign, negated for \<open>-\<close>, with the cursor where that factor left it: nothing is read
  after it. If a letter stands there, a returned value is either the constant, with the
  cursor after the blanks behind the name, or the function applied to the one argument,
  with the cursor one past the parenthesis that closes the argument: in both cases a
  \<open>^\<close> at the cursor is left unread. After the closing parenthesis of a group and after
  a number comes the power check, which reads \<open>^\<close> and a factor. Hence a minus in front of
  \<open>b ^ f\<close> negates the power: \<^verbatim>\<open>-2^2\<close> is -4 with the exact primitives, while on \<^verbatim>\<open>e^2\<close>
  the factor ends in front of \<open>^\<close>.
\<close>

theorem power_check_placement:
  assumes "skip_whitespace s pos = p0" and "p0 < length s"
  shows "(s ! p0 = CHR ''-'' \<or> s ! p0 = CHR ''+'' \<longrightarrow>
            run_factor m fs cs s pos =
              (case run_factor m fs cs s (p0 + 1) of
                 None \<Rightarrow> None
               | Some (Inl e, p1) \<Rightarrow> Some (Inl e, p1)
               | Some (Inr v, p1) \<Rightarrow> Some (Inr (if s ! p0 = CHR ''-'' then dneg m v else v), p1))) \<and>
         (s ! p0 = CHR ''('' \<longrightarrow>
            run_factor m fs cs s pos =
              (case run_expression m fs cs s (p0 + 1) of
                 None \<Rightarrow> None
               | Some (Inl e, p1) \<Rightarrow> Some (Inl e, p1)
               | Some (Inr result, p1) \<Rightarrow>
                   if skip_whitespace s p1 \<ge> length s \<or> s ! skip_whitespace s p1 \<noteq> CHR '')''
                   then Some (Inl (runtime_error ''Mismatched parentheses''), skip_whitespace s p1)
                   else power_check m fs cs s result (skip_whitespace s p1 + 1))) \<and>
         (isalpha (s ! p0) \<longrightarrow>
            (\<forall>v p name p1. run_factor m fs cs s pos = Some (Inr v, p) \<longrightarrow>
               scan_identifier s p0 [] = (name, p1) \<longrightarrow>
               (if skip_whitespace s p1 < length s \<and> s ! skip_whitespace s p1 = CHR ''(''
                then \<exists>arg p3 f. run_expression m fs cs s (skip_whitespace s p1 + 1) = Some (Inr arg, p3) \<and>
                       s ! skip_whitespace s p3 = CHR '')'' \<and> fs name = Some f \<and> f arg = Inr v \<and>
                       p = skip_whitespace s p3 + 1
                else cs name = Some v \<and> p = skip_whitespace s p1))) \<and>
         (\<not> (s ! p0 = CHR ''-'' \<or> s ! p0 = CHR ''+'') \<and> s ! p0 \<noteq> CHR ''('' \<and> \<not> isalpha (s ! p0) \<longrightarrow>
            run_factor m fs cs s pos =
              (case parse_number m s p0 of
                 (Inl e, p1) \<Rightarrow> Some (Inl e, p1)
               | (Inr result, p1) \<Rightarrow> power_check m fs cs s result p1)) \<and>
         (\<forall>b f ws w rest x y P.
            is_base b \<and> is_factor b \<and> is_factor f \<and> blank ws \<and> blank w \<and> stops_expression rest \<and>
            tree_value m b = Inr x \<and> tree_value m f = Inr y \<longrightarrow>
            evaluate m P (ws @ ''-'' @ unparse b @ w @ ''^'' @ unparse f @ rest) =
              Some (Inr (dneg m (sc_power m x y)),
                    P\<lparr>m_input := ws @ ''-'' @ unparse b @ w @ ''^'' @ unparse f @ rest,
                      m_pos := length (ws @ ''-'' @ unparse b @ w @ ''^'' @ unparse f) +
                               length (takeWhile isspace rest)\<rparr>))"
proof -
  have sign: "run_factor m fs cs s pos =
              (case run_factor m fs cs s (p0 + 1) of
                 None \<Rightarrow> None
               | Some (Inl e, p1) \<Rightarrow> Some (Inl e, p1)
               | Some (Inr v, p1) \<Rightarrow> Some (Inr (if s ! p0 = CHR ''-'' then dneg m v else v), p1))"
    if "s ! p0 = CHR ''-'' \<or> s ! p0 = CHR ''+''"
    using that assms by (subst run_factor_eq) (simp add: Let_def)
  have paren: "run_factor m fs cs s pos =
              (case run_expression m fs cs s (p0 + 1) of
                 None \<Rightarrow> None
               | Some (Inl e, p1) \<Rightarrow> Some (Inl e, p1)
               | Some (Inr result, p1) \<Rightarrow>
                   if skip_whitespace s p1 \<ge> length s \<or> s ! skip_whitespace s p1 \<noteq> CHR '')''
                   then Some (Inl (runtime_error ''Mismatched parentheses''), skip_whitespace s p1)
                   else power_check m fs cs s result (skip_whitespace s p1 + 1))"
    if "s ! p0 = CHR ''(''"
    using that assms
    by (subst run_factor_eq) (simp add: Let_def power_check_def split: option.splits sum.splits prod.splits)
  have ident: "if skip_whitespace s p1 < length s \<and> s ! skip_whitespace s p1 = CHR ''(''
                then \<exists>arg p3 f. run_expression m fs cs s (skip_whitespace s p1 + 1) = Some (Inr arg, p3) \<and>
                       s ! skip_whitespace s p3 = CHR '')'' \<and> fs name = Some f \<and> f arg = Inr v \<and>
                       p = skip_whitespace s p3 + 1
                else cs name = Some v \<and> p = skip_whitespace s p1"
    if "isalpha (s ! p0)" and r: "run_factor m fs cs s pos = Some (Inr v, p)"
      and sc: "scan_identifier s p0 [] = (name, p1)" for v p name p1
  proof -
    note pl = isalpha_plain[OF that(1)]
    from r assms pl that(1) show ?thesis
      by (subst (asm) run_factor_eq)
        (auto simp: Let_def sc split: if_splits option.splits sum.splits prod.splits)
  qed
  have number: "run_factor m fs cs s pos =
              (case parse_number m s p0 of
                 (Inl e, p1) \<Rightarrow> Some (Inl e, p1)
               | (Inr result, p1) \<Rightarrow> power_check m fs cs s result p1)"
    if "\<not> (s ! p0 = CHR ''-'' \<or> s ! p0 = CHR ''+'') \<and> s ! p0 \<noteq> CHR ''('' \<and> \<not> isalpha (s ! p0)"
    using that assms
    by (subst run_factor_eq) (simp add: Let_def power_check_def split: option.splits sum.splits prod.splits)
  have tree: "evaluate m P (ws @ ''-'' @ unparse b @ w @ ''^'' @ unparse f @ rest) =
              Some (Inr (dneg m (sc_power m x y)),
                    P\<lparr>m_input := ws @ ''-'' @ unparse b @ w @ ''^'' @ unparse f @ rest,
                      m_pos := length (ws @ ''-'' @ unparse b @ w @ ''^'' @ unparse f) +
                               length (takeWhile isspace rest)\<rparr>)"
    if h: "is_base b \<and> is_factor b \<and> is_factor f \<and> blank ws \<and> blank w \<and> stops_expression rest \<and>
            tree_value m b = Inr x \<and> tree_value m f = Inr y" for b f ws w rest x y P
  proof -
    let ?e = "Sign ws Op_neg (Pow b w f)"
    have "is_factor ?e" using h by simp
    then have e: "is_expr ?e" by (simp add: is_factor_levels)
    have v: "tree_value m ?e = Inr (dneg m (sc_power m x y))" using h by simp
    from h have st: "stops_expression rest" by simp
    from evaluate_tree_value[OF e st v, of P] show ?thesis by simp
  qed
  from sign paren ident number tree show ?thesis by blast
qed

theorem power_check_placement_witness:
  "skip_whitespace ''-2^2'' 0 = 0 \<and> (0::nat) < length ''-2^2'' \<and> ''-2^2'' ! 0 = CHR ''-'' \<and>
   run_factor exact_math Map.empty Map.empty ''-2^2'' 0 = Some (Inr (- 4), 4) \<and>
   is_base (Num [] ''2'') \<and> is_factor (Num [] ''2'') \<and> blank [] \<and> stops_expression [] \<and>
   tree_value exact_math (Num [] ''2'') = Inr 2 \<and>
   evaluate exact_math (new_ExpressionParser exact_math) ''-2^2'' =
     Some (Inr (- 4), (new_ExpressionParser exact_math)\<lparr>m_input := ''-2^2'', m_pos := 4\<rparr>) \<and>
   skip_whitespace ''e^2'' 0 = 0 \<and> isalpha (''e^2'' ! 0) \<and>
   run_factor exact_math (m_functions (new_ExpressionParser exact_math))
     (m_constants (new_ExpressionParser exact_math)) ''e^2'' 0 = Some (Inr (E exact_math), 1) \<and>
   scan_identifier ''e^2'' 0 [] = (''e'', 1) \<and> skip_whitespace ''e^2'' 1 = 1 \<and> ''e^2'' ! 1 = CHR ''^''"
proof -
  have a: "skip_whitespace ''-2^2'' 0 = 0" "(0::nat) < length ''-2^2''" "''-2^2'' ! 0 = CHR ''-''"
    by (simp_all add: scans chars)
  have inner: "run_factor exact_math Map.empty Map.empty ''-2^2'' 1 = Some (Inr 4, 4)"
    by (simp add: run_factor_def depth_bound_def descent_numeral scans exacts calc chars)
  have h: "is_base (Num [] ''2'')" "is_factor (Num [] ''2'')" "blank []" "stops_expression []"
    "tree_value exact_math (Num [] ''2'') = Inr 2"
    by (simp_all add: blank_def literal_def mantissa_char_def chars exacts
        stops_expression_def stops_term_def stops_factor_def literal_ends_def)
  have p: "dneg exact_math (sc_power exact_math 2 2) = - 4"
    by (simp add: sc_power_def exacts)
  note t = power_check_placement[OF a(1,2), of exact_math Map.empty Map.empty]
  from t a(3) inner
  have r1: "run_factor exact_math Map.empty Map.empty ''-2^2'' 0 = Some (Inr (- 4), 4)"
    by (simp add: exacts)
  from t h have "evaluate exact_math (new_ExpressionParser exact_math)
       ([] @ ''-'' @ unparse (Num [] ''2'') @ [] @ ''^'' @ unparse (Num [] ''2'') @ []) =
     Some (Inr (dneg exact_math (sc_power exact_math 2 2)),
           (new_ExpressionParser exact_math)\<lparr>m_input := [] @ ''-'' @ unparse (Num [] ''2'') @ [] @ ''^'' @ unparse (Num [] ''2'') @ [],
              m_pos := length ([] @ ''-'' @ unparse (Num [] ''2'') @ [] @ ''^'' @ unparse (Num [] ''2'')) +
                               length (takeWhile isspace [])\<rparr>)"
    by blast
  then have r2: "evaluate exact_math (new_ExpressionParser exact_math) ''-2^2'' =
     Some (Inr (- 4), (new_ExpressionParser exact_math)\<lparr>m_input := ''-2^2'', m_pos := 4\<rparr>)"
    unfolding p by simp
  have b: "skip_whitespace ''e^2'' 0 = 0" "isalpha (''e^2'' ! 0)" "scan_identifier ''e^2'' 0 [] = (''e'', 1)"
    "skip_whitespace ''e^2'' 1 = 1" "''e^2'' ! 1 = CHR ''^''"
    by (simp_all add: scans chars)
  have r3: "run_factor exact_math (m_functions (new_ExpressionParser exact_math))
     (m_constants (new_ExpressionParser exact_math)) ''e^2'' 0 = Some (Inr (E exact_math), 1)"
    by (simp add: run_factor_def depth_bound_def descent_numeral scans registry chars)
  from a r1 h r2 b r3 show ?thesis by simp
qed

text \<open>
  C6. How a name is resolved. For every text \<open>pre @ ws @ name @ rest\<close> in which the name
  ends where \<open>rest\<close> starts: if the first character of \<open>rest\<close> that is no blank is \<open>(\<close>, one
  expression is read as the argument, a closing parenthesis is required after it, and
  the name is looked up in the functions only; otherwise the name is looked up in the
  constants only. So a call of a name that is no function throws "Unknown function",
  whatever the constants hold, and a name without a call that is no constant throws
  "Unknown identifier", whatever the functions hold. With the registry of the
  constructor: \<^verbatim>\<open>foo(1)\<close>, \<^verbatim>\<open>bar\<close>, and also \<^verbatim>\<open>e(1)\<close> and \<^verbatim>\<open>sin\<close>.
\<close>

theorem identifier_resolution:
  assumes "blank ws" and "is_identifier name"
  shows "(\<forall>pre rest fs cs. rest = [] \<or> \<not> ident_char (hd rest) \<longrightarrow>
           run_factor m fs cs (pre @ ws @ name @ rest) (length pre) =
             (let s = pre @ ws @ name @ rest;
                  p2 = length pre + length ws + length name + length (takeWhile isspace rest) in
              if ahead rest \<noteq> [] \<and> hd (ahead rest) = CHR ''('' then
                (case run_expression m fs cs s (Suc p2) of
                   None \<Rightarrow> None
                 | Some (Inl e, p3) \<Rightarrow> Some (Inl e, p3)
                 | Some (Inr arg, p3) \<Rightarrow>
                     let p4 = skip_whitespace s p3 in
                     if p4 \<ge> length s \<or> s ! p4 \<noteq> CHR '')'' then
                       Some (Inl (runtime_error ''Mismatched parentheses in function call''), p4)
                     else
                       (case fs name of
                          None \<Rightarrow> Some (Inl (runtime_error (''Unknown function: '' @ name)), p4 + 1)
                        | Some f \<Rightarrow> Some (f arg, p4 + 1)))
              else
                (case cs name of
                   Some c \<Rightarrow> Some (Inr c, p2)
                 | None \<Rightarrow> Some (Inl (runtime_error (''Unknown identifier: '' @ name)), p2)))) \<and>
         (\<forall>w e w' v rest. blank w \<and> is_expr e \<and> blank w' \<and> tree_value m e = Inr v \<and>
              m_functions P name = None \<longrightarrow>
            evaluate m P (ws @ name @ w @ ''('' @ unparse e @ w' @ '')'' @ rest) =
              Some (Inl (runtime_error (''Unknown function: '' @ name)),
                    P\<lparr>m_input := ws @ name @ w @ ''('' @ unparse e @ w' @ '')'' @ rest,
                      m_pos := length (ws @ name @ w @ ''('' @ unparse e @ w' @ '')'')\<rparr>)) \<and>
         (\<forall>rest. (rest = [] \<or> \<not> ident_char (hd rest)) \<and> (ahead rest = [] \<or> hd (ahead rest) \<noteq> CHR ''('') \<and>
              m_constants P name = None \<longrightarrow>
            evaluate m P (ws @ name @ rest) =
              Some (Inl (runtime_error (''Unknown identifier: '' @ name)),
                    P\<lparr>m_input := ws @ name @ rest,
                      m_pos := length ws + length name + length (takeWhile isspace rest)\<rparr>))"
proof -
  have A: "run_factor m fs cs (pre @ ws @ name @ rest) (length pre) =
             (let s = pre @ ws @ name @ rest;
                  p2 = length pre + length ws + length name + length (takeWhile isspace rest) in
              if ahead rest \<noteq> [] \<and> hd (ahead rest) = CHR ''('' then
                (case run_expression m fs cs s (Suc p2) of
                   None \<Rightarrow> None
                 | Some (Inl e, p3) \<Rightarrow> Some (Inl e, p3)
                 | Some (Inr arg, p3) \<Rightarrow>
                     let p4 = skip_whitespace s p3 in
                     if p4 \<ge> length s \<or> s ! p4 \<noteq> CHR '')'' then
                       Some (Inl (runtime_error ''Mismatched parentheses in function call''), p4)
                     else
                       (case fs name of
                          None \<Rightarrow> Some (Inl (runtime_error (''Unknown function: '' @ name)), p4 + 1)
                        | Some f \<Rightarrow> Some (f arg, p4 + 1)))
              else
                (case cs name of
                   Some c \<Rightarrow> Some (Inr c, p2)
                 | None \<Rightarrow> Some (Inl (runtime_error (''Unknown identifier: '' @ name)), p2)))"
    if "rest = [] \<or> \<not> ident_char (hd rest)" for pre rest fs cs
    using factor_identifier[OF assms that, of m fs cs pre] unfolding Let_def .
  have B: "evaluate m P (ws @ name @ w @ ''('' @ unparse e @ w' @ '')'' @ rest) =
              Some (Inl (runtime_error (''Unknown function: '' @ name)),
                    P\<lparr>m_input := ws @ name @ w @ ''('' @ unparse e @ w' @ '')'' @ rest,
                      m_pos := length (ws @ name @ w @ ''('' @ unparse e @ w' @ '')'')\<rparr>)"
    if "blank w \<and> is_expr e \<and> blank w' \<and> tree_value m e = Inr v \<and> m_functions P name = None"
    for w e w' v rest
  proof -
    from that have h: "blank w" "is_expr e" "blank w'" "tree_value m e = Inr v" "m_functions P name = None"
      by simp_all
    from evaluate_factor_throws[OF call_unknown[where fs = "m_functions P" and cs = "m_constants P"
          and rest = rest, OF assms h]]
    show ?thesis .
  qed
  have C: "evaluate m P (ws @ name @ rest) =
              Some (Inl (runtime_error (''Unknown identifier: '' @ name)),
                    P\<lparr>m_input := ws @ name @ rest,
                      m_pos := length ws + length name + length (takeWhile isspace rest)\<rparr>)"
    if "(rest = [] \<or> \<not> ident_char (hd rest)) \<and> (ahead rest = [] \<or> hd (ahead rest) \<noteq> CHR ''('') \<and>
              m_constants P name = None" for rest
  proof -
    from that have h: "rest = [] \<or> \<not> ident_char (hd rest)" "ahead rest = [] \<or> hd (ahead rest) \<noteq> CHR ''(''"
      "m_constants P name = None" by simp_all
    from evaluate_factor_throws[OF reference_unknown[where cs = "m_constants P" and fs = "m_functions P"
          and m = m, OF assms h]]
    show ?thesis .
  qed
  from A B C show ?thesis by blast
qed

theorem identifier_resolution_witness:
  "blank [] \<and> is_identifier ''foo'' \<and> is_identifier ''bar'' \<and> is_identifier ''e'' \<and> is_identifier ''sin'' \<and>
   is_expr (Num [] ''1'') \<and> tree_value exact_math (Num [] ''1'') = Inr 1 \<and>
   m_functions (new_ExpressionParser exact_math) ''foo'' = None \<and>
   m_constants (new_ExpressionParser exact_math) ''bar'' = None \<and>
   evaluate exact_math (new_ExpressionParser exact_math) ''foo(1)'' =
     Some (Inl (runtime_error ''Unknown function: foo''),
           (new_ExpressionParser exact_math)\<lparr>m_input := ''foo(1)'', m_pos := 6\<rparr>) \<and>
   evaluate exact_math (new_ExpressionParser exact_math) ''bar'' =
     Some (Inl (runtime_error ''Unknown identifier: bar''),
           (new_ExpressionParser exact_math)\<lparr>m_input := ''bar'', m_pos := 3\<rparr>) \<and>
   m_functions (new_ExpressionParser exact_math) ''e'' = None \<and>
   m_constants (new_ExpressionParser exact_math) ''e'' = Some (E exact_math) \<and>
   evaluate exact_math (new_ExpressionParser exact_math) ''e(1)'' =
     Some (Inl (runtime_error ''Unknown function: e''),
           (new_ExpressionParser exact_math)\<lparr>m_input := ''e(1)'', m_pos := 4\<rparr>) \<and>
   m_constants (new_ExpressionParser exact_math) ''sin'' = None \<and>
   m_functions (new_ExpressionParser exact_math) ''sin'' \<noteq> None \<and>
   evaluate exact_math (new_ExpressionParser exact_math) ''sin'' =
     Some (Inl (runtime_error ''Unknown identifier: sin''),
           (new_ExpressionParser exact_math)\<lparr>m_input := ''sin'', m_pos := 3\<rparr>)"
proof -
  let ?P = "new_ExpressionParser exact_math"
  have b: "blank []" by (simp add: blank_def)
  have i: "is_identifier ''foo''" "is_identifier ''bar''" "is_identifier ''e''" "is_identifier ''sin''"
    by (simp_all add: is_identifier_def ident_char_def chars)
  have e: "is_expr (Num [] ''1'')" "tree_value exact_math (Num [] ''1'') = Inr 1"
    by (simp_all add: blank_def literal_def mantissa_char_def chars exacts)
  have r: "m_functions ?P ''foo'' = None" "m_constants ?P ''bar'' = None"
    "m_functions ?P ''e'' = None" "m_constants ?P ''e'' = Some (E exact_math)"
    "m_constants ?P ''sin'' = None" "m_functions ?P ''sin'' \<noteq> None"
    by (simp_all add: registry)
  from identifier_resolution[OF b i(1), of exact_math ?P] b e r(1)
  have "evaluate exact_math ?P ([] @ ''foo'' @ [] @ ''('' @ unparse (Num [] ''1'') @ [] @ '')'' @ []) =
     Some (Inl (runtime_error (''Unknown function: '' @ ''foo'')),
           ?P\<lparr>m_input := [] @ ''foo'' @ [] @ ''('' @ unparse (Num [] ''1'') @ [] @ '')'' @ [],
              m_pos := length ([] @ ''foo'' @ [] @ ''('' @ unparse (Num [] ''1'') @ [] @ '')'')\<rparr>)"
    by blast
  then have r1: "evaluate exact_math ?P ''foo(1)'' =
     Some (Inl (runtime_error ''Unknown function: foo''), ?P\<lparr>m_input := ''foo(1)'', m_pos := 6\<rparr>)"
    by simp
  from identifier_resolution[OF b i(3), of exact_math ?P] b e r(3)
  have "evaluate exact_math ?P ([] @ ''e'' @ [] @ ''('' @ unparse (Num [] ''1'') @ [] @ '')'' @ []) =
     Some (Inl (runtime_error (''Unknown function: '' @ ''e'')),
           ?P\<lparr>m_input := [] @ ''e'' @ [] @ ''('' @ unparse (Num [] ''1'') @ [] @ '')'' @ [],
              m_pos := length ([] @ ''e'' @ [] @ ''('' @ unparse (Num [] ''1'') @ [] @ '')'')\<rparr>)"
    by blast
  then have r3: "evaluate exact_math ?P ''e(1)'' =
     Some (Inl (runtime_error ''Unknown function: e''), ?P\<lparr>m_input := ''e(1)'', m_pos := 4\<rparr>)"
    by simp
  from identifier_resolution[OF b i(2), of exact_math ?P] r(2)
  have "evaluate exact_math ?P ([] @ ''bar'' @ []) =
     Some (Inl (runtime_error (''Unknown identifier: '' @ ''bar'')),
           ?P\<lparr>m_input := [] @ ''bar'' @ [], m_pos := length ([]::string) + length ''bar'' + length (takeWhile isspace [])\<rparr>)"
    by simp
  then have r2: "evaluate exact_math ?P ''bar'' =
     Some (Inl (runtime_error ''Unknown identifier: bar''), ?P\<lparr>m_input := ''bar'', m_pos := 3\<rparr>)"
    by simp
  from identifier_resolution[OF b i(4), of exact_math ?P] r(5)
  have "evaluate exact_math ?P ([] @ ''sin'' @ []) =
     Some (Inl (runtime_error (''Unknown identifier: '' @ ''sin'')),
           ?P\<lparr>m_input := [] @ ''sin'' @ [], m_pos := length ([]::string) + length ''sin'' + length (takeWhile isspace [])\<rparr>)"
    by simp
  then have r4: "evaluate exact_math ?P ''sin'' =
     Some (Inl (runtime_error ''Unknown identifier: sin''), ?P\<lparr>m_input := ''sin'', m_pos := 3\<rparr>)"
    by simp
  from b i e r r1 r2 r3 r4 show ?thesis by simp
qed

text \<open>
  C5. What \<open>parse_number\<close> scans as one number. The loop for the digits of the exponent
  runs zero or more times, so the token is a run of digits and points with at most one
  point, optionally followed by a marker \<open>e\<close> or \<open>E\<close>, an optional sign and zero or more
  digits. Every such text, followed by something that does not continue it, is scanned
  as one token and handed to \<^verbatim>\<open>std::stod\<close>; conversely, whenever \<open>parse_number\<close> returns a value
  or throws "Invalid number", the text it consumed is such a token. Every literal with
  one or more digits in the exponent is a token, and so is a number that ends in a bare
  marker or in a marker and a sign, which is no such literal.
\<close>

theorem number_token_scanned:
  "(blank ws \<and> number_token l \<and> token_ends l rest \<longrightarrow>
      parse_number m (pre @ ws @ l @ rest) (length pre) =
        (case stod m l of
           None \<Rightarrow> (Inl (runtime_error (''Invalid number: '' @ l)), length pre + length ws + length l)
         | Some v \<Rightarrow> (Inr v, length pre + length ws + length l))) \<and>
   (parse_number m s pos = (out, p) \<and> out \<noteq> Inl (runtime_error ''Expected number'') \<and>
    out \<noteq> Inl (runtime_error ''Invalid number format'') \<longrightarrow>
      number_token (substr s (skip_whitespace s pos) (p - skip_whitespace s pos)) \<and>
      token_ends (substr s (skip_whitespace s pos) (p - skip_whitespace s pos)) (drop p s) \<and>
      out = (case stod m (substr s (skip_whitespace s pos) (p - skip_whitespace s pos)) of
               None \<Rightarrow> Inl (runtime_error (''Invalid number: '' @
                         substr s (skip_whitespace s pos) (p - skip_whitespace s pos)))
             | Some v \<Rightarrow> Inr v)) \<and>
   (literal l \<longrightarrow> number_token l) \<and>
   (list_all mantissa_char mant \<and> count_list mant CHR ''.'' \<le> 1 \<and> (c = CHR ''e'' \<or> c = CHR ''E'') \<and>
    (sg = [] \<or> sg = ''+'' \<or> sg = ''-'') \<longrightarrow>
      number_token (mant @ c # sg) \<and> \<not> literal (mant @ c # sg))"
proof -
  have A: "parse_number m (pre @ ws @ l @ rest) (length pre) =
        (case stod m l of
           None \<Rightarrow> (Inl (runtime_error (''Invalid number: '' @ l)), length pre + length ws + length l)
         | Some v \<Rightarrow> (Inr v, length pre + length ws + length l))"
    if "blank ws \<and> number_token l \<and> token_ends l rest"
    using that parse_number_token[of ws l rest m pre] by blast
  have B: "number_token (substr s (skip_whitespace s pos) (p - skip_whitespace s pos)) \<and>
      token_ends (substr s (skip_whitespace s pos) (p - skip_whitespace s pos)) (drop p s) \<and>
      out = (case stod m (substr s (skip_whitespace s pos) (p - skip_whitespace s pos)) of
               None \<Rightarrow> Inl (runtime_error (''Invalid number: '' @
                         substr s (skip_whitespace s pos) (p - skip_whitespace s pos)))
             | Some v \<Rightarrow> Inr v)"
    if "parse_number m s pos = (out, p) \<and> out \<noteq> Inl (runtime_error ''Expected number'') \<and>
        out \<noteq> Inl (runtime_error ''Invalid number format'')"
    using that parse_number_sound[of m s pos out p] by blast
  have D: "number_token (mant @ c # sg) \<and> \<not> literal (mant @ c # sg)"
    if h: "list_all mantissa_char mant \<and> count_list mant CHR ''.'' \<le> 1 \<and> (c = CHR ''e'' \<or> c = CHR ''E'') \<and>
        (sg = [] \<or> sg = ''+'' \<or> sg = ''-'')"
  proof -
    from h have c: "c = CHR ''e'' \<or> c = CHR ''E''" by simp
    note pl = marker_plain[OF c]
    from h have tw: "takeWhile mantissa_char (mant @ c # sg) = mant"
      using pl by (simp add: list_all_iff takeWhile_append2)
    from h have dw: "dropWhile mantissa_char (mant @ c # sg) = c # sg"
      using pl by (simp add: list_all_iff dropWhile_append2)
    from h show ?thesis
      by (auto simp: number_token_def literal_def Let_def tw dw)
  qed
  from A B D literal_number_token[of l] show ?thesis by blast
qed

theorem number_token_scanned_witness:
  "blank [] \<and> number_token ''2e'' \<and> token_ends ''2e'' [] \<and>
   parse_number exact_math ''2e'' 0 = (Inr 2, 2) \<and>
   number_token ''1.5e-2'' \<and> literal ''1.5e-2'' \<and> token_ends ''1.5e-2'' ''*4'' \<and>
   parse_number exact_math ''1.5e-2*4'' 0 = (Inr (3 / 200), 6) \<and>
   number_token (substr ''2e+ 1'' (skip_whitespace ''2e+ 1'' 0) (3 - skip_whitespace ''2e+ 1'' 0)) \<and>
   token_ends ''2e+'' '' 1'' \<and> \<not> literal ''2e+''"
proof -
  have h: "blank []" "number_token ''2e''" "token_ends ''2e'' []"
    "number_token ''1.5e-2''" "literal ''1.5e-2''" "token_ends ''1.5e-2'' ''*4''"
    by (simp_all add: blank_def number_token_def literal_def token_ends_def mantissa_char_def chars Let_def)
  have v: "stod exact_math ''2e'' = Some 2" "stod exact_math ''1.5e-2'' = Some (3 / 200)"
    by (simp_all add: exacts chars Let_def)
  have r: "parse_number exact_math ''2e+ 1'' 0 = (Inr 2, 3)"
    by (simp add: parse_number_def scans exacts chars Let_def substr_def)
  note t1 = number_token_scanned[of "[]" "''2e''" "[]" exact_math "[]"]
  note t2 = number_token_scanned[of "[]" "''1.5e-2''" "''*4''" exact_math "[]"]
  note t3 = number_token_scanned[of _ _ _ exact_math _ "''2e+ 1''" 0 "Inr 2" 3 "''2''" "CHR ''e''" "''+''"]
  from t1 h v have r1: "parse_number exact_math ''2e'' 0 = (Inr 2, 2)" by simp
  from t2 h v have r2: "parse_number exact_math ''1.5e-2*4'' 0 = (Inr (3 / 200), 6)" by simp
  from t3 r have r3: "number_token (substr ''2e+ 1'' (skip_whitespace ''2e+ 1'' 0) (3 - skip_whitespace ''2e+ 1'' 0))"
    "token_ends (substr ''2e+ 1'' (skip_whitespace ''2e+ 1'' 0) (3 - skip_whitespace ''2e+ 1'' 0)) (drop 3 ''2e+ 1'')"
    by simp_all
  have sub: "substr ''2e+ 1'' (skip_whitespace ''2e+ 1'' 0) (3 - skip_whitespace ''2e+ 1'' 0) = ''2e+''"
    by (simp add: scans chars substr_def)
  from t3 have r4: "\<not> literal ''2e+''" by (simp add: mantissa_char_def chars)
  from h r1 r2 r3 r4 show ?thesis unfolding sub by simp
qed

text \<open>
  The texts \<^verbatim>\<open>2e\<close> and \<^verbatim>\<open>2e+\<close> are scanned as one token each, marker and sign included,
  although no digit follows the marker; with the exact reading of \<^verbatim>\<open>std::stod\<close>, which
  converts the longest prefix that is a number, both evaluate to 2.
\<close>

theorem bare_marker_scanned:
  "parse_number exact_math ''2e'' 0 = (Inr 2, 2) \<and> \<not> literal ''2e'' \<and>
   parse_number exact_math ''2e+'' 0 = (Inr 2, 3) \<and> \<not> literal ''2e+'' \<and>
   evaluate exact_math (new_ExpressionParser exact_math) ''2e'' =
     Some (Inr 2, (new_ExpressionParser exact_math)\<lparr>m_input := ''2e'', m_pos := 2\<rparr>) \<and>
   evaluate exact_math (new_ExpressionParser exact_math) ''2e+'' =
     Some (Inr 2, (new_ExpressionParser exact_math)\<lparr>m_input := ''2e+'', m_pos := 3\<rparr>)"
proof -
  have a: "parse_number exact_math ''2e'' 0 = (Inr 2, 2)" "parse_number exact_math ''2e+'' 0 = (Inr 2, 3)"
    by (simp_all add: parse_number_def scans exacts chars Let_def substr_def)
  have b: "\<not> literal ''2e''" "\<not> literal ''2e+''"
    by (simp_all add: literal_def mantissa_char_def chars Let_def)
  have c: "evaluate exact_math (new_ExpressionParser exact_math) ''2e'' =
     Some (Inr 2, (new_ExpressionParser exact_math)\<lparr>m_input := ''2e'', m_pos := 2\<rparr>)"
    by (rule evaluate_eq[where n = 8]) (simp add: descent_numeral scans exacts chars registry a)
  have d: "evaluate exact_math (new_ExpressionParser exact_math) ''2e+'' =
     Some (Inr 2, (new_ExpressionParser exact_math)\<lparr>m_input := ''2e+'', m_pos := 3\<rparr>)"
    by (rule evaluate_eq[where n = 8]) (simp add: descent_numeral scans exacts chars registry a)
  from a b c d show ?thesis by simp
qed




end
